theory Spec2Isabelle
  imports Main "HOL-Library.Word" "HOL-Library.AList"
begin

section \<open>Text and bytes\<close>

text \<open>
  A Python \<open>str\<close> is a sequence of Unicode code points and a \<open>bytes\<close> object a sequence of
  8-bit values. Code points are natural numbers here, so that the text decoded from a file
  (which may hold any code point) and the text the parsers work on have one type.
  \<open>lit\<close> turns an ASCII literal of the source into such a text.
\<close>

type_synonym cp = nat
type_synonym pystr = "cp list"
type_synonym byte = "8 word"

definition lit :: "string \<Rightarrow> pystr" where
  "lit s = map of_char s"

datatype py_error =
  UnicodeDecodeError | TypeError | AttributeError | FileNotFoundError
  | RuntimeError | OtherError

subsection \<open>The codecs used by \<open>read_file_bytes_to_text\<close>\<close>

text \<open>
  \<open>bytes.decode\<close> belongs to the Python runtime. The strict decoders return
  \<open>Inl UnicodeDecodeError\<close> where Python raises; the decoders called with
  \<open>errors="replace"\<close> are total and put U+FFFD where Python does.
\<close>

definition cont :: "nat \<Rightarrow> bool" where
  "cont b \<longleftrightarrow> 0x80 \<le> b \<and> b \<le> 0xBF"

fun utf8_units :: "nat list \<Rightarrow> pystr option" where
  "utf8_units [] = Some []"
| "utf8_units (b0 # bs) =
     (if b0 < 0x80 then map_option ((#) b0) (utf8_units bs)
      else if 0xC2 \<le> b0 \<and> b0 \<le> 0xDF then
        (case bs of
           b1 # r \<Rightarrow>
             if cont b1
             then map_option ((#) ((b0 - 0xC0) * 64 + (b1 - 0x80))) (utf8_units r)
             else None
         | _ \<Rightarrow> None)
      else if 0xE0 \<le> b0 \<and> b0 \<le> 0xEF then
        (case bs of
           b1 # b2 # r \<Rightarrow>
             if cont b1 \<and> cont b2 \<and> (b0 = 0xE0 \<longrightarrow> 0xA0 \<le> b1) \<and> (b0 = 0xED \<longrightarrow> b1 \<le> 0x9F)
             then map_option
                    ((#) ((b0 - 0xE0) * 4096 + (b1 - 0x80) * 64 + (b2 - 0x80)))
                    (utf8_units r)
             else None
         | _ \<Rightarrow> None)
      else if 0xF0 \<le> b0 \<and> b0 \<le> 0xF4 then
        (case bs of
           b1 # b2 # b3 # r \<Rightarrow>
             if cont b1 \<and> cont b2 \<and> cont b3
                \<and> (b0 = 0xF0 \<longrightarrow> 0x90 \<le> b1) \<and> (b0 = 0xF4 \<longrightarrow> b1 \<le> 0x8F)
             then map_option
                    ((#) ((b0 - 0xF0) * 262144 + (b1 - 0x80) * 4096
                          + (b2 - 0x80) * 64 + (b3 - 0x80)))
                    (utf8_units r)
             else None
         | _ \<Rightarrow> None)
      else None)"

definition decode_utf8 :: "byte list \<Rightarrow> py_error + pystr" where
  "decode_utf8 b =
     (case utf8_units (map unat b) of
        None \<Rightarrow> Inl UnicodeDecodeError
      | Some t \<Rightarrow> Inr t)"

text \<open>\<open>utf-8-sig\<close>: a leading EF BB BF is skipped, the rest is UTF-8.\<close>

definition decode_utf8_sig :: "byte list \<Rightarrow> py_error + pystr" where
  "decode_utf8_sig b =
     (if take 3 b = [0xEF, 0xBB, 0xBF] then decode_utf8 (drop 3 b) else decode_utf8 b)"

text \<open>\<open>cp1252\<close>: five bytes have no character; 0x80 to 0x9F otherwise map by a table.\<close>

definition cp1252_high :: "cp option list" where
  "cp1252_high =
     [Some 0x20AC, None, Some 0x201A, Some 0x0192, Some 0x201E, Some 0x2026, Some 0x2020,
      Some 0x2021, Some 0x02C6, Some 0x2030, Some 0x0160, Some 0x2039, Some 0x0152, None,
      Some 0x017D, None, None, Some 0x2018, Some 0x2019, Some 0x201C, Some 0x201D,
      Some 0x2022, Some 0x2013, Some 0x2014, Some 0x02DC, Some 0x2122, Some 0x0161,
      Some 0x203A, Some 0x0153, None, Some 0x017E, Some 0x0178]"

definition cp1252_char :: "nat \<Rightarrow> cp option" where
  "cp1252_char b = (if 0x80 \<le> b \<and> b < 0xA0 then cp1252_high ! (b - 0x80) else Some b)"

fun cp1252_units :: "nat list \<Rightarrow> pystr option" where
  "cp1252_units [] = Some []"
| "cp1252_units (b # bs) =
     (case cp1252_char b of
        None \<Rightarrow> None
      | Some c \<Rightarrow> map_option ((#) c) (cp1252_units bs))"

definition decode_cp1252 :: "byte list \<Rightarrow> py_error + pystr" where
  "decode_cp1252 b =
     (case cp1252_units (map unat b) of
        None \<Rightarrow> Inl UnicodeDecodeError
      | Some t \<Rightarrow> Inr t)"

text \<open>\<open>latin-1\<close> maps every byte to the code point of the same number and cannot fail.\<close>

definition decode_latin1 :: "byte list \<Rightarrow> py_error + pystr" where
  "decode_latin1 b = Inr (map unat b)"

definition decode_latin1_replace :: "byte list \<Rightarrow> pystr" where
  "decode_latin1_replace b = map unat b"

text \<open>
  \<open>utf-16\<close> with \<open>errors="replace"\<close>: a byte-order mark selects the byte order and is
  consumed (without one the order is little-endian); a surrogate that is not part of a
  pair, and a truncated end, become U+FFFD.
\<close>

definition unit16 :: "bool \<Rightarrow> nat \<Rightarrow> nat \<Rightarrow> nat" where
  "unit16 le b0 b1 = (if le then b1 * 256 + b0 else b0 * 256 + b1)"

fun utf16_units :: "bool \<Rightarrow> nat list \<Rightarrow> pystr" where
  "utf16_units le [] = []"
| "utf16_units le [b] = [0xFFFD]"
| "utf16_units le (b0 # b1 # r) =
     (let u = unit16 le b0 b1 in
      if u < 0xD800 \<or> 0xDFFF < u then u # utf16_units le r
      else if 0xDC00 \<le> u then 0xFFFD # utf16_units le r
      else
        (case r of
           c0 # c1 # r' \<Rightarrow>
             (let u2 = unit16 le c0 c1 in
              if 0xDC00 \<le> u2 \<and> u2 \<le> 0xDFFF
              then (0x10000 + (u - 0xD800) * 1024 + (u2 - 0xDC00)) # utf16_units le r'
              else 0xFFFD # utf16_units le r)
         | _ \<Rightarrow> [0xFFFD]))"

definition decode_utf16_replace :: "byte list \<Rightarrow> pystr" where
  "decode_utf16_replace b =
     (if take 2 b = [0xFF, 0xFE] then utf16_units True (map unat (drop 2 b))
      else if take 2 b = [0xFE, 0xFF] then utf16_units False (map unat (drop 2 b))
      else utf16_units True (map unat b))"

subsection \<open>\<open>read_file_bytes_to_text\<close>\<close>

datatype encoding = Utf8Sig | Utf8 | Cp1252 | Latin1

fun decode :: "encoding \<Rightarrow> byte list \<Rightarrow> py_error + pystr" where
  "decode Utf8Sig b = decode_utf8_sig b"
| "decode Utf8 b = decode_utf8 b"
| "decode Cp1252 b = decode_cp1252 b"
| "decode Latin1 b = decode_latin1 b"

text \<open>The \<open>for enc in (...)\<close> loop with its \<open>try\<close>/\<open>except: continue\<close>.\<close>

fun try_encodings :: "encoding list \<Rightarrow> byte list \<Rightarrow> pystr option" where
  "try_encodings [] b = None"
| "try_encodings (enc # encs) b =
     (case decode enc b of
        Inr t \<Rightarrow> Some t
      | Inl e \<Rightarrow> try_encodings encs b)"

text \<open>\<open>text.replace("\x00", "")\<close>\<close>

definition remove_nul :: "pystr \<Rightarrow> pystr" where
  "remove_nul t = filter (\<lambda>c. c \<noteq> 0) t"

definition read_file_bytes_to_text :: "byte list \<Rightarrow> pystr" where
  "read_file_bytes_to_text b =
     (if take 2 b = [0xFF, 0xFE] \<or> take 2 b = [0xFE, 0xFF]
      then remove_nul (decode_utf16_replace b)
      else
        (case try_encodings [Utf8Sig, Utf8, Cp1252, Latin1] b of
           Some t \<Rightarrow> t
         | None \<Rightarrow> decode_latin1_replace b))"

subsection \<open>String operations\<close>

text \<open>\<open>s.split(c)\<close> for a separator of one character: never empty, \<open>"".split(c) = [""]\<close>.\<close>

fun split_on :: "cp \<Rightarrow> pystr \<Rightarrow> pystr list" where
  "split_on c [] = [[]]"
| "split_on c (x # xs) =
     (if x = c then [] # split_on c xs
      else (case split_on c xs of
              p # ps \<Rightarrow> (x # p) # ps
            | [] \<Rightarrow> [[x]]))"

text \<open>\<open>sep.join(parts)\<close>\<close>

fun join_with :: "pystr \<Rightarrow> pystr list \<Rightarrow> pystr" where
  "join_with sep [] = []"
| "join_with sep [p] = p"
| "join_with sep (p # q # ps) = p @ sep @ join_with sep (q # ps)"

text \<open>\<open>s.replace(a, b)\<close> for single characters \<open>a\<close> and \<open>b\<close>\<close>

definition replace_char :: "cp \<Rightarrow> cp \<Rightarrow> pystr \<Rightarrow> pystr" where
  "replace_char a b s = map (\<lambda>c. if c = a then b else c) s"

text \<open>\<open>s.startswith(p)\<close> and \<open>p in s\<close> on strings\<close>

fun startswith :: "pystr \<Rightarrow> pystr \<Rightarrow> bool" where
  "startswith s [] = True"
| "startswith [] (p # ps) = False"
| "startswith (c # s) (p # ps) = (c = p \<and> startswith s ps)"

fun contains_str :: "pystr \<Rightarrow> pystr \<Rightarrow> bool" where
  "contains_str [] p = (p = [])"
| "contains_str (c # s) p = (startswith (c # s) p \<or> contains_str s p)"

text \<open>\<open>str(n)\<close> for integers: decimal digits, a minus sign for negative numbers.\<close>

fun digits_of :: "nat \<Rightarrow> pystr \<Rightarrow> pystr" where
  "digits_of n acc =
     (if n < 10 then (48 + n) # acc else digits_of (n div 10) ((48 + n mod 10) # acc))"

definition str_nat :: "nat \<Rightarrow> pystr" where
  "str_nat n = digits_of n []"

definition str_int :: "int \<Rightarrow> pystr" where
  "str_int i = (if i < 0 then 45 # str_nat (nat (- i)) else str_nat (nat i))"

abbreviation dot :: cp where "dot \<equiv> 46"
abbreviation underscore :: cp where "underscore \<equiv> 95"

section \<open>Records as JSON values\<close>

text \<open>
  The records the parsers return and the canonical objects are what \<open>json.loads\<close> can
  return: \<open>None\<close>, booleans, integers, floats, strings, lists and dicts with string keys.
  A \<open>dict\<close> keeps the order of insertion and has no key twice: it is an association list,
  read with \<open>map_of\<close> and written with \<open>AList.update\<close> (an existing key keeps its place, a
  new one goes to the end). Floats are values of a type \<open>'f\<close> that the model does not look
  into.
\<close>

datatype 'f json =
  JNull | JBool bool | JInt int | JFloat 'f | JStr pystr
  | JList "'f json list" | JDict "(pystr \<times> 'f json) list"

text \<open>\<open>d.get(k)\<close>: \<open>None\<close> for a missing key.\<close>

definition dict_get :: "(pystr \<times> 'f json) list \<Rightarrow> pystr \<Rightarrow> 'f json" where
  "dict_get d k = (case map_of d k of None \<Rightarrow> JNull | Some v \<Rightarrow> v)"

text \<open>\<open>dict(items)\<close>: a later pair with the same key replaces the value.\<close>

definition dict_of_items :: "(pystr \<times> 'f json) list \<Rightarrow> (pystr \<times> 'f json) list" where
  "dict_of_items items = foldl (\<lambda>d kv. AList.update (fst kv) (snd kv) d) [] items"

subsection \<open>\<open>flatten_record\<close>\<close>

text \<open>
  The inner \<open>_flatten(obj, prefix)\<close>; \<open>flatten_dict\<close> is its loop over \<open>obj.items()\<close> and
  \<open>flatten_list\<close> its loop over \<open>enumerate(obj)\<close>, with the running index.
\<close>

fun flatten :: "'f json \<Rightarrow> pystr \<Rightarrow> (pystr \<times> 'f json) list"
  and flatten_dict :: "(pystr \<times> 'f json) list \<Rightarrow> pystr \<Rightarrow> (pystr \<times> 'f json) list"
  and flatten_list :: "'f json list \<Rightarrow> nat \<Rightarrow> pystr \<Rightarrow> (pystr \<times> 'f json) list"
where
  "flatten (JDict kvs) prefix = flatten_dict kvs prefix"
| "flatten (JList xs) prefix = flatten_list xs 0 prefix"
| "flatten JNull prefix = [(prefix, JNull)]"
| "flatten (JBool b) prefix = [(prefix, JBool b)]"
| "flatten (JInt i) prefix = [(prefix, JInt i)]"
| "flatten (JFloat x) prefix = [(prefix, JFloat x)]"
| "flatten (JStr s) prefix = [(prefix, JStr s)]"
| "flatten_dict [] prefix = []"
| "flatten_dict (kv # kvs) prefix =
     flatten (snd kv) (if prefix \<noteq> [] then prefix @ [dot] @ fst kv else fst kv)
     @ flatten_dict kvs prefix"
| "flatten_list [] i prefix = []"
| "flatten_list (x # xs) i prefix =
     flatten x (if prefix \<noteq> [] then prefix @ [91] @ str_nat i @ [93]
                else [91] @ str_nat i @ [93])
     @ flatten_list xs (Suc i) prefix"

definition flatten_record :: "'f json \<Rightarrow> (pystr \<times> 'f json) list" where
  "flatten_record rec = dict_of_items (flatten rec [])"

subsection \<open>\<open>get_nested_value\<close>\<close>

text \<open>
  The \<open>for part in parts\<close> loop: \<open>None\<close> when it reaches the \<open>else\<close> branch, the value of
  \<open>current\<close> after the last part otherwise.
\<close>

fun walk :: "'f json \<Rightarrow> pystr list \<Rightarrow> 'f json option" where
  "walk current [] = Some current"
| "walk current (part # parts) =
     (case current of
        JDict kvs \<Rightarrow>
          (case map_of kvs part of
             Some v \<Rightarrow> walk v parts
           | None \<Rightarrow> None)
      | _ \<Rightarrow> None)"

text \<open>
  \<open>path\<close> is a string or \<open>None\<close>. On an object that is not a dict, \<open>path in obj\<close> or
  \<open>obj[path]\<close> raises \<open>TypeError\<close>, and \<open>obj.get\<close> raises \<open>AttributeError\<close>. The result
  \<open>None\<close> of \<open>obj.get\<close> for a missing key is \<open>JNull\<close>.
\<close>

definition get_nested_value :: "'f json \<Rightarrow> pystr option \<Rightarrow> py_error + 'f json" where
  "get_nested_value obj path =
     (case path of
        None \<Rightarrow> Inr obj
      | Some p \<Rightarrow>
          if p = [] then Inr obj
          else
            (case obj of
               JDict kvs \<Rightarrow>
                 (case map_of kvs p of
                    Some v \<Rightarrow> Inr v
                  | None \<Rightarrow>
                      (case walk obj (split_on dot p) of
                         Some v \<Rightarrow> Inr v
                       | None \<Rightarrow> Inr (dict_get kvs (replace_char dot underscore p))))
             | JList xs \<Rightarrow> if JStr p \<in> set xs then Inl TypeError else Inl AttributeError
             | JStr s \<Rightarrow> if contains_str s p then Inl TypeError else Inl AttributeError
             | _ \<Rightarrow> Inl TypeError))"

subsection \<open>Records made of nested mappings\<close>

text \<open>
  \<open>is_scalar v\<close>: \<open>v\<close> is neither a list nor a dict.
  \<open>mappings_only v\<close>: \<open>v\<close> nests dicts only (a list inside it is empty), no key contains a
  dot, and no dict has a key twice. \<open>dotted ks\<close> is the text \<open>.k1.k2...\<close> that the
  flattener appends to a prefix on the way down through the keys \<open>ks\<close>.
\<close>

fun is_scalar :: "'f json \<Rightarrow> bool" where
  "is_scalar (JList xs) = False"
| "is_scalar (JDict kvs) = False"
| "is_scalar v = True"

fun mappings_only :: "'f json \<Rightarrow> bool"
  and mappings_only_items :: "(pystr \<times> 'f json) list \<Rightarrow> bool"
where
  "mappings_only (JDict kvs) = (distinct (map fst kvs) \<and> mappings_only_items kvs)"
| "mappings_only (JList xs) = (xs = [])"
| "mappings_only JNull = True"
| "mappings_only (JBool b) = True"
| "mappings_only (JInt i) = True"
| "mappings_only (JFloat x) = True"
| "mappings_only (JStr s) = True"
| "mappings_only_items [] = True"
| "mappings_only_items (kv # kvs) =
     (dot \<notin> set (fst kv) \<and> mappings_only (snd kv) \<and> mappings_only_items kvs)"

definition dotted :: "pystr list \<Rightarrow> pystr" where
  "dotted ks = concat (map (\<lambda>k. dot # k) ks)"

section \<open>Delimiter detection\<close>

text \<open>
  \<open>str.isspace\<close> and the line boundaries of \<open>str.splitlines\<close>, as the Unicode database
  of the Python runtime has them.
\<close>

definition is_space :: "cp \<Rightarrow> bool" where
  "is_space c \<longleftrightarrow>
     (0x09 \<le> c \<and> c \<le> 0x0D) \<or> (0x1C \<le> c \<and> c \<le> 0x20) \<or> c = 0x85 \<or> c = 0xA0
     \<or> c = 0x1680 \<or> (0x2000 \<le> c \<and> c \<le> 0x200A) \<or> c = 0x2028 \<or> c = 0x2029
     \<or> c = 0x202F \<or> c = 0x205F \<or> c = 0x3000"

definition is_linebreak :: "cp \<Rightarrow> bool" where
  "is_linebreak c \<longleftrightarrow>
     (0x0A \<le> c \<and> c \<le> 0x0D) \<or> (0x1C \<le> c \<and> c \<le> 0x1E) \<or> c = 0x85
     \<or> c = 0x2028 \<or> c = 0x2029"

text \<open>\<open>s.strip()\<close>\<close>

definition strip :: "pystr \<Rightarrow> pystr" where
  "strip s = rev (dropWhile is_space (rev (dropWhile is_space s)))"

text \<open>
  \<open>s.splitlines()\<close>: CR LF is one boundary, the boundaries are dropped, and a boundary at
  the very end opens no further line.
\<close>

fun splitlines :: "pystr \<Rightarrow> pystr list" where
  "splitlines [] = []"
| "splitlines (c # s) =
     (if c = 13 then
        (case s of
           d # s' \<Rightarrow> if d = 10 then [] # splitlines s' else [] # splitlines s
         | [] \<Rightarrow> [[]])
      else if is_linebreak c then [] # splitlines s
      else
        (case splitlines s of
           [] \<Rightarrow> [[c]]
         | l # ls \<Rightarrow> (c # l) # ls))"

text \<open>\<open>s.count(c)\<close> for a single character \<open>c\<close>\<close>

definition count_char :: "cp \<Rightarrow> pystr \<Rightarrow> nat" where
  "count_char c s = length (filter (\<lambda>x. x = c) s)"

text \<open>\<open>[ln for ln in text.splitlines() if ln.strip()]\<close>\<close>

definition nonblank_lines :: "pystr \<Rightarrow> pystr list" where
  "nonblank_lines t = filter (\<lambda>ln. strip ln \<noteq> []) (splitlines t)"

subsection \<open>\<open>detect_csv_delimiter\<close>\<close>

definition delimiter_sample :: "pystr \<Rightarrow> pystr" where
  "delimiter_sample t =
     (let lines = nonblank_lines t
      in if lines \<noteq> [] then join_with [10] (take 10 lines) else take 2000 t)"

text \<open>The candidates in the order of the source: comma, tab, semicolon, pipe.\<close>

definition delimiter_candidates :: "cp list" where
  "delimiter_candidates = [44, 9, 59, 124]"

text \<open>The \<open>for c in [...]\<close> loop over the pair \<open>(best, best_cnt)\<close>.\<close>

fun pick_best :: "cp list \<Rightarrow> pystr \<Rightarrow> cp \<times> int \<Rightarrow> cp \<times> int" where
  "pick_best [] sample bb = bb"
| "pick_best (c # cs) sample bb =
     (let cnt = int (count_char c sample)
      in if cnt > snd bb then pick_best cs sample (c, cnt) else pick_best cs sample bb)"

definition detect_csv_delimiter :: "pystr \<Rightarrow> cp" where
  "detect_csv_delimiter t = fst (pick_best delimiter_candidates (delimiter_sample t) (44, - 1))"

section \<open>Parsing a sample into records\<close>

text \<open>
  Slices: a bound below zero counts from the end, and both bounds are clamped to the list.
  \<open>xs[:n]\<close> is \<open>py_slice 0 n xs\<close>.
\<close>

definition clamp_index :: "int \<Rightarrow> nat \<Rightarrow> nat" where
  "clamp_index i len = (if i < 0 then nat (max 0 (int len + i)) else min (nat i) len)"

definition py_slice :: "int \<Rightarrow> int \<Rightarrow> 'a list \<Rightarrow> 'a list" where
  "py_slice start stop xs =
     (let a = clamp_index start (length xs); b = clamp_index stop (length xs)
      in take (b - a) (drop a xs))"

type_synonym 'f dict = "(pystr \<times> 'f json) list"

text \<open>\<open>out.update(d)\<close>\<close>

definition dict_update_all :: "'f dict \<Rightarrow> 'f dict \<Rightarrow> 'f dict" where
  "dict_update_all out d = foldl (\<lambda>acc kv. AList.update (fst kv) (snd kv) acc) out d"

subsection \<open>What the parser libraries return\<close>

text \<open>
  An element of \<open>xml.etree.ElementTree\<close>: its tag, its text (or \<open>None\<close>) and its children.
\<close>

datatype element = Element (tag: pystr) (etext: "pystr option") (children: "element list")

text \<open>
  A row of \<open>csv.DictReader\<close>: the column names with their cells. A missing cell is \<open>None\<close>;
  the surplus cells of a long row stand under the key \<open>None\<close>, an entry that the source skips
  before it looks at its value.
\<close>

type_synonym csv_row = "(pystr option \<times> pystr option) list"

text \<open>
  \<open>json.loads\<close>, \<open>ET.fromstring\<close> and \<open>csv.DictReader\<close> are libraries, taken as they are:
  \<open>json_loads\<close> and \<open>xml_fromstring\<close> return \<open>None\<close> where the library raises, and
  \<open>csv_DictReader text delim\<close> gives the rows that the reader yields, in order, and
  whether it raises after the last of them instead of stopping.
\<close>

record 'f parsers =
  json_loads :: "pystr \<Rightarrow> 'f json option"
  xml_fromstring :: "pystr \<Rightarrow> element option"
  csv_DictReader :: "pystr \<Rightarrow> cp \<Rightarrow> csv_row list \<times> bool"

subsection \<open>\<open>flatten_element_to_dict\<close>\<close>

text \<open>\<open>(child.text or "")\<close>\<close>

definition text_or_empty :: "pystr option \<Rightarrow> pystr" where
  "text_or_empty t = (case t of None \<Rightarrow> [] | Some s \<Rightarrow> s)"

fun flatten_element_to_dict :: "element \<Rightarrow> pystr \<Rightarrow> 'f dict"
  and flatten_children :: "element list \<Rightarrow> pystr \<Rightarrow> 'f dict \<Rightarrow> 'f dict"
where
  "flatten_element_to_dict (Element t tx cs) prefix = flatten_children cs prefix []"
| "flatten_children [] prefix out = out"
| "flatten_children (Element t tx cs # rest) prefix out =
     (let key = (if prefix \<noteq> [] then prefix @ [dot] @ t else t)
      in if cs \<noteq> []
         then flatten_children rest prefix
                (dict_update_all out (flatten_element_to_dict (Element t tx cs) key))
         else flatten_children rest prefix
                (AList.update key (JStr (strip (text_or_empty tx))) out))"

subsection \<open>The JSON tier\<close>

definition container_keys :: "pystr list" where
  "container_keys =
     [lit ''shipments'', lit ''items'', lit ''data'', lit ''records'', lit ''payload'']"

fun is_list :: "'f json \<Rightarrow> bool" where
  "is_list (JList xs) = True"
| "is_list _ = False"

fun list_items :: "'f json \<Rightarrow> 'f json list" where
  "list_items (JList xs) = xs"
| "list_items _ = []"

text \<open>
  The loop \<open>for candidate in (...)\<close>: the list under the first candidate key that holds a
  list, \<open>None\<close> when the loop ends without returning.
\<close>

fun first_container :: "pystr list \<Rightarrow> 'f dict \<Rightarrow> 'f json list option" where
  "first_container [] obj = None"
| "first_container (candidate # rest) obj =
     (case map_of obj candidate of
        Some (JList xs) \<Rightarrow> Some xs
      | _ \<Rightarrow> first_container rest obj)"

text \<open>\<open>[v for v in obj.values() if isinstance(v, list)]\<close>\<close>

definition list_values :: "'f dict \<Rightarrow> 'f json list" where
  "list_values obj = filter is_list (map snd obj)"

text \<open>
  The body of the \<open>try\<close> once \<open>json.loads\<close> has returned \<open>obj\<close>; \<open>None\<close> when it reaches
  its end without a \<open>return\<close>.
\<close>

definition records_of_json :: "'f json \<Rightarrow> int \<Rightarrow> 'f json list option" where
  "records_of_json obj max_rows =
     (case obj of
        JList xs \<Rightarrow> Some (py_slice 0 max_rows xs)
      | JDict kvs \<Rightarrow>
          (case first_container container_keys kvs of
             Some xs \<Rightarrow> Some (py_slice 0 max_rows xs)
           | None \<Rightarrow>
               (case list_values kvs of
                  v # vs \<Rightarrow> Some (py_slice 0 max_rows (list_items v))
                | [] \<Rightarrow> Some [JDict kvs]))
      | _ \<Rightarrow> None)"

definition json_tier :: "'f parsers \<Rightarrow> pystr \<Rightarrow> int \<Rightarrow> 'f json list option" where
  "json_tier lib s max_rows =
     (case json_loads lib s of
        None \<Rightarrow> None
      | Some obj \<Rightarrow> records_of_json obj max_rows)"

subsection \<open>The XML tier\<close>

text \<open>\<open>s.replace('""', '"')\<close>\<close>

fun collapse_quotes :: "pystr \<Rightarrow> pystr" where
  "collapse_quotes (c # d # s) =
     (if c = 34 \<and> d = 34 then 34 # collapse_quotes s else c # collapse_quotes (d # s))"
| "collapse_quotes s = s"

definition xml_tier :: "'f parsers \<Rightarrow> pystr \<Rightarrow> 'f json list option" where
  "xml_tier lib s =
     (case xml_fromstring lib (collapse_quotes s) of
        None \<Rightarrow> None
      | Some root \<Rightarrow> Some [JDict (flatten_element_to_dict root [])])"

subsection \<open>The delimited tier\<close>

text \<open>\<open>.replace("\ufeff", "").replace("\ufffe", "")\<close>\<close>

definition remove_boms :: "pystr \<Rightarrow> pystr" where
  "remove_boms s = filter (\<lambda>c. c \<noteq> 0xFFFE) (filter (\<lambda>c. c \<noteq> 0xFEFF) s)"

text \<open>The inner loop \<open>for k, v in r.items()\<close> that builds \<open>clean\<close>.\<close>

fun clean_row :: "csv_row \<Rightarrow> (pystr \<times> pystr option) list \<Rightarrow> (pystr \<times> pystr option) list" where
  "clean_row [] clean = clean"
| "clean_row ((k, v) # r) clean =
     (case k of
        None \<Rightarrow> clean_row r clean
      | Some key \<Rightarrow> clean_row r (AList.update (remove_boms (strip key)) v clean))"

text \<open>\<open>any((v or "").strip() for v in d.values())\<close>\<close>

definition any_nonblank :: "(pystr \<times> pystr option) list \<Rightarrow> bool" where
  "any_nonblank d = (\<exists>v\<in>set (map snd d). strip (text_or_empty v) \<noteq> [])"

definition cell :: "pystr option \<Rightarrow> 'f json" where
  "cell v = (case v of None \<Rightarrow> JNull | Some s \<Rightarrow> JStr s)"

definition row_record :: "(pystr \<times> pystr option) list \<Rightarrow> 'f json" where
  "row_record d = JDict (map (\<lambda>kv. (fst kv, cell (snd kv))) d)"

text \<open>
  The loop \<open>for i, r in enumerate(reader)\<close>: \<open>None\<close> when the reader raises before the
  loop has left, the list \<open>rows\<close> otherwise.
\<close>

fun reader_loop :: "csv_row list \<Rightarrow> bool \<Rightarrow> int \<Rightarrow> int \<Rightarrow> 'f json list \<Rightarrow> 'f json list option" where
  "reader_loop [] raises i max_rows rows = (if raises then None else Some rows)"
| "reader_loop (r # rs) raises i max_rows rows =
     (if i \<ge> max_rows then Some rows
      else
        (let clean = clean_row r []
         in reader_loop rs raises (i + 1) max_rows
              (if any_nonblank clean then rows @ [row_record clean] else rows)))"

text \<open>The dict comprehension \<open>{h: (parts[i] if i < len(parts) else "") for i, h in ...}\<close>.\<close>

fun header_record :: "pystr list \<Rightarrow> nat \<Rightarrow> pystr list \<Rightarrow> (pystr \<times> pystr option) list
    \<Rightarrow> (pystr \<times> pystr option) list" where
  "header_record [] i parts d = d"
| "header_record (h # hs) i parts d =
     header_record hs (Suc i) parts
       (AList.update h (Some (if i < length parts then parts ! i else [])) d)"

text \<open>The body of the manual split for one line.\<close>

definition split_line :: "pystr list \<Rightarrow> cp \<Rightarrow> pystr \<Rightarrow> (pystr \<times> pystr option) list" where
  "split_line header delim ln =
     (let parts = map strip (split_on delim ln);
          parts = (if length parts < length header
                   then parts @ replicate (length header - length parts) []
                   else parts)
      in header_record header 0 parts [])"

text \<open>
  The \<open>except\<close> branch; it reads \<open>lines[0]\<close>, and the source reaches it under
  \<open>if lines:\<close> only.
\<close>

fun manual_split :: "pystr list \<Rightarrow> cp \<Rightarrow> int \<Rightarrow> 'f json list" where
  "manual_split [] delim max_rows = []"
| "manual_split (first # rest) delim max_rows =
     (let header = map (\<lambda>h. remove_boms (strip h)) (split_on delim first)
      in map row_record
           (filter any_nonblank
              (map (split_line header delim) (py_slice 1 (1 + max_rows) (first # rest)))))"

text \<open>
  The block under \<open>if lines:\<close>; \<open>None\<close> when neither the reader nor the manual split
  returns rows.
\<close>

definition csv_tier :: "'f parsers \<Rightarrow> pystr \<Rightarrow> pystr list \<Rightarrow> int \<Rightarrow> 'f json list option" where
  "csv_tier lib txt lines max_rows =
     (let delim = detect_csv_delimiter txt;
          reader = csv_DictReader lib txt delim
      in case reader_loop (fst reader) (snd reader) 0 max_rows [] of
           Some rows \<Rightarrow> if rows \<noteq> [] then Some rows else None
         | None \<Rightarrow>
             (let rows = manual_split lines delim max_rows
              in if rows \<noteq> [] then Some rows else None))"

subsection \<open>\<open>parse_sample_to_records\<close>\<close>

text \<open>
  The file system is a map from paths to the bytes of the files that exist. The result is
  the pair \<open>(records, raw_text)\<close>.
\<close>

definition raw_lines :: "pystr list \<Rightarrow> int \<Rightarrow> 'f json list" where
  "raw_lines lines max_rows =
     map (\<lambda>ln. JDict [(lit ''raw_line'', JStr ln)]) (py_slice 0 max_rows lines)"

definition parse_text :: "'f parsers \<Rightarrow> pystr \<Rightarrow> int \<Rightarrow> 'f json list" where
  "parse_text lib txt max_rows =
     (let s = strip txt
      in case (if startswith s (lit ''{'') \<or> startswith s (lit ''['')
               then json_tier lib s max_rows else None) of
           Some records \<Rightarrow> records
         | None \<Rightarrow>
             (case (if startswith s (lit ''<'') then xml_tier lib s else None) of
                Some records \<Rightarrow> records
              | None \<Rightarrow>
                  (let lines = nonblank_lines txt
                   in case (if lines \<noteq> [] then csv_tier lib txt lines max_rows else None) of
                        Some records \<Rightarrow> records
                      | None \<Rightarrow> raw_lines lines max_rows)))"

definition parse_sample_to_records ::
    "'f parsers \<Rightarrow> (pystr \<rightharpoonup> byte list) \<Rightarrow> pystr \<Rightarrow> int \<Rightarrow> 'f json list \<times> pystr" where
  "parse_sample_to_records lib fs path max_rows =
     (case fs path of
        None \<Rightarrow> ([], [])
      | Some b \<Rightarrow>
          (let txt = read_file_bytes_to_text b
           in (parse_text lib txt max_rows, txt)))"

subsection \<open>\<open>handle_sftp_sample\<close>\<close>

text \<open>
  The handler checks that the file exists before it does anything else; \<open>read_sample\<close>
  stands for all it does after that check (reading the table with pandas and cleaning the
  column names).
\<close>

definition handle_sftp_sample ::
    "(pystr \<rightharpoonup> byte list) \<Rightarrow> (pystr \<Rightarrow> byte list \<Rightarrow> py_error + 'r) \<Rightarrow> pystr \<Rightarrow> py_error + 'r" where
  "handle_sftp_sample fs read_sample file_path =
     (case fs file_path of
        None \<Rightarrow> Inl FileNotFoundError
      | Some b \<Rightarrow> read_sample file_path b)"

subsection \<open>Sample files\<close>

text \<open>
  Files and documents for the examples. \<open>sample_parsers\<close> are the libraries on these
  documents: \<open>json.loads\<close> and \<open>ET.fromstring\<close> return what they return in Python for the
  documents listed and reject every other text.
\<close>

definition ascii_bytes :: "string \<Rightarrow> byte list" where
  "ascii_bytes s = map of_char s"

definition doc_nested :: string where
  \<open>doc_nested = ''{"a": {"b": [1, 2]}}''\<close>

definition doc_single :: string where
  \<open>doc_single = ''{"id": 7}''\<close>

definition doc_items :: string where
  \<open>doc_items = ''{"data": {"x": 1}, "records": [4], "items": [2, 3]}''\<close>

definition doc_rows :: string where
  \<open>doc_rows = ''{"meta": 1, "rows": [5, 6], "more": [8]}''\<close>

definition doc_ten :: string where
  \<open>doc_ten = ''[{"n":0},{"n":1},{"n":2},{"n":3},{"n":4},{"n":5},{"n":6},{"n":7},{"n":8},{"n":9}]''\<close>

definition doc_xml :: string where
  \<open>doc_xml = ''<Shipment><Receiver><Name>Jane</Name></Receiver></Shipment>''\<close>

definition doc_schema :: string where
  \<open>doc_schema = ''{"required": ["tracking_id"]}''\<close>

definition doc_not_a_schema :: string where
  \<open>doc_not_a_schema = ''{"type": 12}''\<close>

definition json_documents :: "(pystr \<times> unit json) list" where
  "json_documents =
     [(lit doc_nested, JDict [(lit ''a'', JDict [(lit ''b'', JList [JInt 1, JInt 2])])]),
      (lit doc_single, JDict [(lit ''id'', JInt 7)]),
      (lit doc_items,
       JDict [(lit ''data'', JDict [(lit ''x'', JInt 1)]), (lit ''records'', JList [JInt 4]),
              (lit ''items'', JList [JInt 2, JInt 3])]),
      (lit doc_rows,
       JDict [(lit ''meta'', JInt 1), (lit ''rows'', JList [JInt 5, JInt 6]),
              (lit ''more'', JList [JInt 8])]),
      (lit doc_ten, JList (map (\<lambda>n. JDict [(lit ''n'', JInt n)]) [0, 1, 2, 3, 4, 5, 6, 7, 8, 9])),
      (lit doc_schema, JDict [(lit ''required'', JList [JStr (lit ''tracking_id'')])]),
      (lit doc_not_a_schema, JDict [(lit ''type'', JInt 12)])]"

definition xml_documents :: "(pystr \<times> element) list" where
  "xml_documents =
     [(lit doc_xml,
       Element (lit ''Shipment'') None
         [Element (lit ''Receiver'') None [Element (lit ''Name'') (Some (lit ''Jane'')) []]])]"

definition sample_parsers :: "unit parsers" where
  "sample_parsers =
     \<lparr>json_loads = map_of json_documents,
      xml_fromstring = map_of xml_documents,
      csv_DictReader = (\<lambda>txt delim. ([], False))\<rparr>"

definition sample_files :: "pystr \<rightharpoonup> byte list" where
  "sample_files =
     map_of
       [(lit ''nested.json'', ascii_bytes doc_nested),
        (lit ''single.json'', ascii_bytes doc_single),
        (lit ''items.json'', ascii_bytes doc_items),
        (lit ''rows.json'', ascii_bytes doc_rows),
        (lit ''ten.json'', ascii_bytes doc_ten),
        (lit ''shipment.xml'', ascii_bytes doc_xml),
        (lit ''canonical_schema.json'', ascii_bytes doc_schema),
        (lit ''not_a_schema.json'', ascii_bytes doc_not_a_schema)]"

section \<open>Canonical builder\<close>

subsection \<open>Python objects\<close>

text \<open>
  \<open>apply_mappings\<close> takes values out of the records and stores them in the canonical
  objects, and it writes into dicts it finds there. A dict or a list of Python is an object
  with an identity: storing it stores a reference, and a write through one reference is
  seen through every other. So the builder is modelled on a store. A value is \<open>None\<close>, a
  boolean, an integer, a float, a string, or a reference \<open>VRef a\<close> to the object at
  address \<open>a\<close>; an object is a dict or a list of values; the store is the list of all
  objects, the address being the position, and a new object is put at the end.
\<close>

datatype 'f val = VNull | VBool bool | VInt int | VFloat 'f | VStr pystr | VRef nat

datatype 'f obj = ODict "(pystr \<times> 'f val) list" | OList "'f val list"

type_synonym 'f store = "'f obj list"

definition obj_at :: "'f store \<Rightarrow> nat \<Rightarrow> 'f obj option" where
  "obj_at h a = (if a < length h then Some (h ! a) else None)"

text \<open>\<open>isinstance(v, dict)\<close>, with the entries of the dict.\<close>

definition dict_at :: "'f store \<Rightarrow> 'f val \<Rightarrow> (pystr \<times> 'f val) list option" where
  "dict_at h v =
     (case v of
        VRef a \<Rightarrow> (case obj_at h a of Some (ODict kvs) \<Rightarrow> Some kvs | _ \<Rightarrow> None)
      | _ \<Rightarrow> None)"

text \<open>
  \<open>cur[k] = v\<close> for the dict \<open>cur\<close> at address \<open>a\<close>: the object is changed in place, for
  every holder of a reference to it. The builder only assigns into dicts; on another
  address the store is left as it is.
\<close>

definition put :: "'f store \<Rightarrow> nat \<Rightarrow> pystr \<Rightarrow> 'f val \<Rightarrow> 'f store" where
  "put h a k v =
     (case obj_at h a of
        Some (ODict kvs) \<Rightarrow> h[a := ODict (AList.update k v kvs)]
      | _ \<Rightarrow> h)"

text \<open>
  A store is closed when every reference in it is the address of one of its objects, as
  in Python, where a reference always has a target.
\<close>

definition val_in :: "'f store \<Rightarrow> 'f val \<Rightarrow> bool" where
  "val_in h v = (case v of VRef a \<Rightarrow> a < length h | _ \<Rightarrow> True)"

fun vals_of :: "'f obj \<Rightarrow> 'f val list" where
  "vals_of (ODict kvs) = map snd kvs"
| "vals_of (OList xs) = xs"

definition closed :: "'f store \<Rightarrow> bool" where
  "closed h = list_all (\<lambda>ob. list_all (val_in h) (vals_of ob)) h"

text \<open>
  The JSON value that a value of the store stands for, read through the references down
  to depth \<open>d\<close>: \<open>None\<close> if the value nests deeper than \<open>d\<close>, as a dict that contains
  itself does for every \<open>d\<close>.
\<close>

fun fetch :: "nat \<Rightarrow> 'f store \<Rightarrow> 'f val \<Rightarrow> 'f json option" where
  "fetch d h VNull = Some JNull"
| "fetch d h (VBool b) = Some (JBool b)"
| "fetch d h (VInt i) = Some (JInt i)"
| "fetch d h (VFloat x) = Some (JFloat x)"
| "fetch d h (VStr s) = Some (JStr s)"
| "fetch 0 h (VRef a) = None"
| "fetch (Suc d) h (VRef a) =
     (case obj_at h a of
        None \<Rightarrow> None
      | Some (ODict kvs) \<Rightarrow>
          map_option JDict
            (those (map (\<lambda>kv. map_option (Pair (fst kv)) (fetch d h (snd kv))) kvs))
      | Some (OList xs) \<Rightarrow> map_option JList (those (map (fetch d h) xs)))"

subsection \<open>\<open>get_nested_value\<close> on the store\<close>

text \<open>
  The same function as above, reading dicts through their references. The record is a
  value of the store, and so is the result: a dict or list found in the record is
  returned as the reference to that very object. A reference without a target does not
  exist in Python; the model raises on one, and the stores of the theorems are closed.
  On a record that stands for a JSON value, this lookup and the one above agree (lemma
  \<open>get_nested_value_at_tree\<close> below).
\<close>

fun walk_at :: "'f store \<Rightarrow> 'f val \<Rightarrow> pystr list \<Rightarrow> 'f val option" where
  "walk_at h current [] = Some current"
| "walk_at h current (part # parts) =
     (case dict_at h current of
        Some kvs \<Rightarrow>
          (case map_of kvs part of
             Some v \<Rightarrow> walk_at h v parts
           | None \<Rightarrow> None)
      | None \<Rightarrow> None)"

definition get_nested_value_at ::
    "'f store \<Rightarrow> 'f val \<Rightarrow> pystr option \<Rightarrow> py_error + 'f val" where
  "get_nested_value_at h obj path =
     (case path of
        None \<Rightarrow> Inr obj
      | Some p \<Rightarrow>
          if p = [] then Inr obj
          else
            (case obj of
               VRef a \<Rightarrow>
                 (case obj_at h a of
                    Some (ODict kvs) \<Rightarrow>
                      (case map_of kvs p of
                         Some v \<Rightarrow> Inr v
                       | None \<Rightarrow>
                           (case walk_at h obj (split_on dot p) of
                              Some v \<Rightarrow> Inr v
                            | None \<Rightarrow>
                                (case map_of kvs (replace_char dot underscore p) of
                                   Some v \<Rightarrow> Inr v
                                 | None \<Rightarrow> Inr VNull)))
                  | Some (OList xs) \<Rightarrow>
                      if VStr p \<in> set xs then Inl TypeError else Inl AttributeError
                  | None \<Rightarrow> Inl TypeError)
             | VStr s \<Rightarrow> if contains_str s p then Inl TypeError else Inl AttributeError
             | _ \<Rightarrow> Inl TypeError))"

subsection \<open>\<open>apply_mappings\<close>\<close>

text \<open>
  A mapping entry is one element \<open>f\<close> of \<open>schema_obj["fields"]\<close>: \<open>f.get("partner_field")\<close>
  and \<open>f.get("mapped_to")\<close>, each a string or \<open>None\<close>. \<open>is_mapped f\<close> is the test
  \<open>if not mapped: continue\<close> passed: the entry has a canonical path that is not empty.
\<close>

record mapping_entry =
  partner_field :: "pystr option"
  mapped_to :: "pystr option"

definition is_mapped :: "mapping_entry \<Rightarrow> bool" where
  "is_mapped f = (case mapped_to f of None \<Rightarrow> False | Some mapped \<Rightarrow> mapped \<noteq> [])"

text \<open>
  The builtins of Python that the scalar conversion calls, taken as they are:
  \<open>str.isdigit\<close>, \<open>int\<close> and \<open>float\<close> on a string (\<open>None\<close> where they raise
  \<open>ValueError\<close>), and \<open>str\<close> on a float, a list or a dict (which reads the store).
\<close>

record 'f builtins =
  str_isdigit :: "pystr \<Rightarrow> bool"
  int_of_str :: "pystr \<Rightarrow> int option"
  float_of_str :: "pystr \<Rightarrow> 'f option"
  str_of_other :: "'f store \<Rightarrow> 'f val \<Rightarrow> pystr"

text \<open>\<open>str(v)\<close>\<close>

definition py_str :: "'f builtins \<Rightarrow> 'f store \<Rightarrow> 'f val \<Rightarrow> pystr" where
  "py_str bi h v =
     (case v of
        VNull \<Rightarrow> lit ''None''
      | VBool b \<Rightarrow> (if b then lit ''True'' else lit ''False'')
      | VInt i \<Rightarrow> str_int i
      | VStr s \<Rightarrow> s
      | _ \<Rightarrow> str_of_other bi h v)"

text \<open>The block under \<open>if isinstance(v, str)\<close>; another value is kept as it is.\<close>

definition coerce :: "'f builtins \<Rightarrow> 'f val \<Rightarrow> 'f val" where
  "coerce bi v =
     (case v of
        VStr s \<Rightarrow>
          (let vs = strip s
           in if str_isdigit bi vs
              then (case int_of_str bi vs of Some n \<Rightarrow> VInt n | None \<Rightarrow> v)
              else (case float_of_str bi vs of Some x \<Rightarrow> VFloat x | None \<Rightarrow> VStr vs))
      | _ \<Rightarrow> v)"

text \<open>
  The test \<open>part in cur and isinstance(cur[part], dict)\<close> for the dict at address \<open>cur\<close>:
  the address of the dict \<open>cur[part]\<close> when it holds.
\<close>

definition sub_dict :: "'f store \<Rightarrow> nat \<Rightarrow> pystr \<Rightarrow> nat option" where
  "sub_dict h cur part =
     (case dict_at h (VRef cur) of
        Some kvs \<Rightarrow>
          (case map_of kvs part of
             Some (VRef a) \<Rightarrow> (case dict_at h (VRef a) of Some d \<Rightarrow> Some a | None \<Rightarrow> None)
           | _ \<Rightarrow> None)
      | None \<Rightarrow> None)"

text \<open>
  The walk along \<open>parts[:-1]\<close> that ends with \<open>cur[parts[-1]] = v\<close>; \<open>cur\<close> is the address
  of a dict. When \<open>part\<close> is a key of \<open>cur\<close> that holds a dict, the walk goes on in that
  dict, whichever object it is. Otherwise \<open>cur[part] = {}\<close> makes a new dict, stores the
  reference to it, and the walk goes on there.
\<close>

fun set_path :: "pystr list \<Rightarrow> 'f val \<Rightarrow> nat \<Rightarrow> 'f store \<Rightarrow> 'f store" where
  "set_path [] v cur h = h"
| "set_path [key] v cur h = put h cur key v"
| "set_path (part # rest) v cur h =
     (case sub_dict h cur part of
        Some a \<Rightarrow> set_path rest v a h
      | None \<Rightarrow>
          set_path rest v (length h) (put (h @ [ODict []]) cur part (VRef (length h))))"

text \<open>
  The loop \<open>for f in schema_obj.get("fields", [])\<close> for the record \<open>rec\<close> and the
  canonical object at address \<open>canon\<close>.
\<close>

fun apply_fields ::
    "'f builtins \<Rightarrow> 'f val \<Rightarrow> mapping_entry list \<Rightarrow> nat \<Rightarrow> 'f store
      \<Rightarrow> py_error + 'f store" where
  "apply_fields bi rec [] canon h = Inr h"
| "apply_fields bi rec (f # fs) canon h =
     (case mapped_to f of
        None \<Rightarrow> apply_fields bi rec fs canon h
      | Some mapped \<Rightarrow>
          if mapped = [] then apply_fields bi rec fs canon h
          else
            (case get_nested_value_at h rec (partner_field f) of
               Inl e \<Rightarrow> Inl e
             | Inr v \<Rightarrow>
                 if v = VNull \<or> v = VStr [] then apply_fields bi rec fs canon h
                 else apply_fields bi rec fs canon
                        (set_path (split_on dot mapped) (coerce bi v) canon h)))"

text \<open>\<open>any(str(t).startswith(p) for t in mapped_targets if t)\<close>\<close>

definition needs_prefix :: "pystr \<Rightarrow> mapping_entry list \<Rightarrow> bool" where
  "needs_prefix p field_list =
     list_ex (\<lambda>f. case mapped_to f of None \<Rightarrow> False | Some t \<Rightarrow> t \<noteq> [] \<and> startswith t p) field_list"

text \<open>\<open>if needed and key not in canon: canon[key] = canon.get(key, {})\<close>\<close>

definition ensure_object :: "bool \<Rightarrow> pystr \<Rightarrow> nat \<Rightarrow> 'f store \<Rightarrow> 'f store" where
  "ensure_object needed key canon h =
     (case dict_at h (VRef canon) of
        Some kvs \<Rightarrow>
          if needed \<and> map_of kvs key = None
          then put (h @ [ODict []]) canon key (VRef (length h))
          else h
      | None \<Rightarrow> h)"

fun is_str :: "'f val \<Rightarrow> bool" where
  "is_str (VStr s) = True"
| "is_str _ = False"

text \<open>
  The block \<open># customer_contact.phone to string\<close>: \<open>cc\<close> is whatever dict the key
  \<open>customer_contact\<close> refers to, and \<open>cc["phone"] = str(ph)\<close> changes that dict.
\<close>

definition phone_to_string :: "'f builtins \<Rightarrow> nat \<Rightarrow> 'f store \<Rightarrow> 'f store" where
  "phone_to_string bi canon h =
     (case dict_at h (VRef canon) of
        Some kvs \<Rightarrow>
          (case map_of kvs (lit ''customer_contact'') of
             Some (VRef c) \<Rightarrow>
               (case dict_at h (VRef c) of
                  Some cc \<Rightarrow>
                    (case map_of cc (lit ''phone'') of
                       Some ph \<Rightarrow>
                         if ph \<noteq> VNull \<and> \<not> is_str ph
                         then put h c (lit ''phone'') (VStr (py_str bi h ph))
                         else h
                     | None \<Rightarrow> h)
                | None \<Rightarrow> h)
           | _ \<Rightarrow> h)
      | None \<Rightarrow> h)"

text \<open>
  The body of the loop \<open>for rec in records\<close>: \<open>canon = {}\<close> is a new dict, and the result
  is the reference to it with the store after the three steps.
\<close>

definition build_canonical ::
    "'f builtins \<Rightarrow> mapping_entry list \<Rightarrow> 'f val \<Rightarrow> 'f store
      \<Rightarrow> py_error + ('f val \<times> 'f store)" where
  "build_canonical bi field_list rec h =
     (let canon = length h
      in case apply_fields bi rec field_list canon (h @ [ODict []]) of
           Inl e \<Rightarrow> Inl e
         | Inr h1 \<Rightarrow>
             Inr (VRef canon,
                  phone_to_string bi canon
                    (ensure_object (needs_prefix (lit ''origin.'') field_list) (lit ''origin'') canon
                      (ensure_object (needs_prefix (lit ''destination.'') field_list)
                         (lit ''destination'') canon h1))))"

text \<open>
  The loop \<open>for rec in records\<close>; an exception in one record ends the call. The result is
  \<open>canonical_list\<close>, a list of references, and the store at the end, in which the
  canonical objects are read.
\<close>

fun apply_mappings ::
    "'f builtins \<Rightarrow> 'f val list \<Rightarrow> mapping_entry list \<Rightarrow> 'f store
      \<Rightarrow> py_error + ('f val list \<times> 'f store)" where
  "apply_mappings bi [] field_list h = Inr ([], h)"
| "apply_mappings bi (rec # records) field_list h =
     (case build_canonical bi field_list rec h of
        Inl e \<Rightarrow> Inl e
      | Inr (canon, h1) \<Rightarrow>
          (case apply_mappings bi records field_list h1 of
             Inl e \<Rightarrow> Inl e
           | Inr (canonical_list, h2) \<Rightarrow> Inr (canon # canonical_list, h2)))"

text \<open>
  Builtins for the examples: \<open>isdigit\<close> and \<open>int\<close> on ASCII digits, \<open>float\<close> on the
  texts listed (none of the examples passes it another text that Python accepts).
\<close>

fun ascii_digits_value :: "pystr \<Rightarrow> int \<Rightarrow> int" where
  "ascii_digits_value [] acc = acc"
| "ascii_digits_value (c # s) acc = ascii_digits_value s (10 * acc + (int c - 48))"

definition sample_builtins :: "(int \<times> int) builtins" where
  "sample_builtins =
     \<lparr>str_isdigit = (\<lambda>s. s \<noteq> [] \<and> list_all (\<lambda>c. 48 \<le> c \<and> c \<le> 57) s),
      int_of_str =
        (\<lambda>s. if s \<noteq> [] \<and> list_all (\<lambda>c. 48 \<le> c \<and> c \<le> 57) s
              then Some (ascii_digits_value s 0) else None),
      float_of_str = map_of [(lit ''12.5'', (125, - 1))],
      str_of_other = (\<lambda>h v. if v = VFloat (125, - 1) then lit ''12.5'' else lit ''...'')\<rparr>"

subsection \<open>Leaves of a canonical object\<close>

text \<open>
  \<open>no_empty_leaf v\<close>: no string anywhere in the JSON value \<open>v\<close> is empty.
  \<open>plain_value v\<close>: \<open>v\<close> is a scalar, and if it is a string it is empty or has a character
  that is not white space.
\<close>

fun no_empty_leaf :: "'f json \<Rightarrow> bool"
  and no_empty_leaf_items :: "'f dict \<Rightarrow> bool"
  and no_empty_leaf_elems :: "'f json list \<Rightarrow> bool"
where
  "no_empty_leaf (JStr s) = (s \<noteq> [])"
| "no_empty_leaf (JDict kvs) = no_empty_leaf_items kvs"
| "no_empty_leaf (JList xs) = no_empty_leaf_elems xs"
| "no_empty_leaf JNull = True"
| "no_empty_leaf (JBool b) = True"
| "no_empty_leaf (JInt i) = True"
| "no_empty_leaf (JFloat x) = True"
| "no_empty_leaf_items [] = True"
| "no_empty_leaf_items (kv # kvs) = (no_empty_leaf (snd kv) \<and> no_empty_leaf_items kvs)"
| "no_empty_leaf_elems [] = True"
| "no_empty_leaf_elems (x # xs) = (no_empty_leaf x \<and> no_empty_leaf_elems xs)"

fun plain_value :: "'f val \<Rightarrow> bool" where
  "plain_value (VStr s) = (s = [] \<or> strip s \<noteq> [])"
| "plain_value (VRef a) = False"
| "plain_value v = True"

text \<open>
  \<open>filled v\<close>: \<open>v\<close> is a scalar other than \<open>None\<close> and the empty string. \<open>kept h0 v\<close>:
  \<open>v\<close> is not \<open>None\<close> and, in the store \<open>h0\<close>, not a dict: a scalar or a list of \<open>h0\<close>.
\<close>

fun filled :: "'f val \<Rightarrow> bool" where
  "filled (VStr s) = (s \<noteq> [])"
| "filled (VRef a) = False"
| "filled VNull = False"
| "filled v = True"


text \<open>
  \<open>built P n m h\<close>: the objects at the addresses from \<open>n\<close> up to \<open>m\<close> are dicts, and each
  of their values is a reference to a later one of them or a value with the property \<open>P\<close>.
\<close>

definition built :: "('f val \<Rightarrow> bool) \<Rightarrow> nat \<Rightarrow> nat \<Rightarrow> 'f store \<Rightarrow> bool" where
  "built P n m h \<longleftrightarrow>
     m \<le> length h
     \<and> (\<forall>a. n \<le> a \<and> a < m \<longrightarrow>
          (\<exists>kvs. h ! a = ODict kvs
             \<and> (\<forall>v\<in>set (map snd kvs). (\<exists>b. v = VRef b \<and> a < b \<and> b < m) \<or> P v)))"

text \<open>
  \<open>good P h0 n h\<close>: the store \<open>h\<close> begins with the store \<open>h0\<close>, unchanged, and from the
  address \<open>n\<close> on, past \<open>h0\<close>, it is built as above.
\<close>

definition good :: "('f val \<Rightarrow> bool) \<Rightarrow> 'f store \<Rightarrow> nat \<Rightarrow> 'f store \<Rightarrow> bool" where
  "good P h0 n h \<longleftrightarrow>
     length h0 \<le> n \<and> n < length h \<and> take (length h0) h = h0 \<and> built P n (length h) h"

text \<open>
  \<open>phone_done n h\<close>: if the dict at address \<open>n\<close> has a dict under \<open>customer_contact\<close>, and
  that dict has the key \<open>phone\<close>, the value there is a string.
\<close>

definition phone_done :: "nat \<Rightarrow> 'f store \<Rightarrow> bool" where
  "phone_done n h =
     (case dict_at h (VRef n) of
        None \<Rightarrow> True
      | Some canon \<Rightarrow>
          (case map_of canon (lit ''customer_contact'') of
             None \<Rightarrow> True
           | Some ccv \<Rightarrow>
               (case dict_at h ccv of
                  None \<Rightarrow> True
                | Some cc \<Rightarrow>
                    (case map_of cc (lit ''phone'') of
                       None \<Rightarrow> True
                     | Some ph \<Rightarrow> is_str ph))))"


section \<open>Schema validator\<close>

text \<open>
  What \<open>jsonschema.validate(instance, schema)\<close> does: it returns, it raises
  \<open>ValidationError\<close> with a message, or it raises something else (\<open>SchemaError\<close> when
  the schema itself is not a valid schema).
\<close>

datatype validation = Conforms | Violates pystr | Raises

record 'f validation_result =
  index :: nat
  valid :: bool
  errors :: "pystr option"
  object :: "'f json"

text \<open>
  \<open>Path(schema_file).read_text(encoding="utf-8")\<close>: the file has to exist and to be UTF-8;
  line ends are read as \<open>\n\<close>.
\<close>

fun universal_newlines :: "pystr \<Rightarrow> pystr" where
  "universal_newlines (c # d # s) =
     (if c = 13 \<and> d = 10 then 10 # universal_newlines s
      else if c = 13 then 10 # universal_newlines (d # s)
      else c # universal_newlines (d # s))"
| "universal_newlines [c] = (if c = 13 then [10] else [c])"
| "universal_newlines [] = []"

definition read_text_utf8 :: "(pystr \<rightharpoonup> byte list) \<Rightarrow> pystr \<Rightarrow> py_error + pystr" where
  "read_text_utf8 fs path =
     (case fs path of
        None \<Rightarrow> Inl FileNotFoundError
      | Some b \<Rightarrow>
          (case decode_utf8 b of
             Inl e \<Rightarrow> Inl e
           | Inr t \<Rightarrow> Inr (universal_newlines t)))"

text \<open>The \<open>try\<close> block that loads the schema; \<open>None\<close> when it raises.\<close>

definition load_schema ::
    "'f parsers \<Rightarrow> (pystr \<rightharpoonup> byte list) \<Rightarrow> pystr \<Rightarrow> 'f json option" where
  "load_schema lib fs schema_file =
     (case read_text_utf8 fs schema_file of
        Inl e \<Rightarrow> None
      | Inr t \<Rightarrow> json_loads lib t)"

text \<open>The loop \<open>for i, obj in enumerate(canonical_list)\<close> over \<open>results\<close> and \<open>valid_count\<close>.\<close>

fun validate_loop ::
    "('f json \<Rightarrow> 'f json \<Rightarrow> validation) \<Rightarrow> 'f json \<Rightarrow> 'f json list \<Rightarrow> nat
     \<Rightarrow> 'f validation_result list \<Rightarrow> nat \<Rightarrow> py_error + 'f validation_result list \<times> nat" where
  "validate_loop js_validate schema [] i results valid_count = Inr (results, valid_count)"
| "validate_loop js_validate schema (obj # objs) i results valid_count =
     (case js_validate obj schema of
        Conforms \<Rightarrow>
          validate_loop js_validate schema objs (Suc i)
            (results @ [\<lparr>index = i, valid = True, errors = None, object = obj\<rparr>])
            (valid_count + 1)
      | Violates message \<Rightarrow>
          validate_loop js_validate schema objs (Suc i)
            (results @ [\<lparr>index = i, valid = False, errors = Some message, object = obj\<rparr>])
            valid_count
      | Raises \<Rightarrow> Inl OtherError)"

definition validate_list ::
    "'f parsers \<Rightarrow> ('f json \<Rightarrow> 'f json \<Rightarrow> validation) \<Rightarrow> (pystr \<rightharpoonup> byte list)
     \<Rightarrow> 'f json list \<Rightarrow> pystr \<Rightarrow> py_error + 'f validation_result list \<times> nat" where
  "validate_list lib js_validate fs canonical_list schema_file =
     (case load_schema lib fs schema_file of
        None \<Rightarrow> Inl RuntimeError
      | Some schema \<Rightarrow> validate_loop js_validate schema canonical_list 0 [] 0)"

text \<open>
  The validator for the examples knows the schema \<open>{"required": ["tracking_id"]}\<close> and
  the empty schema; any other document is not a schema to it, as \<open>{"type": 12}\<close> is
  none to \<open>jsonschema\<close>, which raises \<open>SchemaError\<close> for it.
\<close>

definition sample_js_validate :: "unit json \<Rightarrow> unit json \<Rightarrow> validation" where
  "sample_js_validate inst schema =
     (if schema = JDict [(lit ''required'', JList [JStr (lit ''tracking_id'')])] then
        (case inst of
           JDict kvs \<Rightarrow>
             if map_of kvs (lit ''tracking_id'') = None
             then Violates ([39] @ lit ''tracking_id'' @ [39] @ lit '' is a required property'')
             else Conforms
         | _ \<Rightarrow> Conforms)
      else if schema = JDict [] then Conforms
      else Raises)"

section \<open>Encoding and text recovery\<close>

lemma latin1_always_decodes: "try_encodings [Utf8Sig, Utf8, Cp1252, Latin1] b \<noteq> None"
  by (simp add: decode_latin1_def split: sum.splits)

lemma second_mark_stays:
  "read_file_bytes_to_text [0xEF, 0xBB, 0xBF, 0xEF, 0xBB, 0xBF, 0x61] = [0xFEFF, 0x61]"
  by (simp add: read_file_bytes_to_text_def decode_utf8_sig_def decode_utf8_def cont_def)

lemma utf16_path_no_nul:
  "take 2 b = [0xFF, 0xFE] \<or> take 2 b = [0xFE, 0xFF] \<Longrightarrow> 0 \<notin> set (read_file_bytes_to_text b)"
  by (auto simp: read_file_bytes_to_text_def remove_nul_def)

text \<open>
  C1. \<open>read_file_bytes_to_text\<close> strips NUL characters only after the UTF-16 branch.
  The file \<open>61 00 62 00\<close> (the text "ab" in UTF-16 without a byte-order mark) is valid
  UTF-8, so the first candidate encoding returns it with both NUL characters kept.
\<close>

theorem read_file_bytes_to_text_keeps_nul:
  "read_file_bytes_to_text [0x61, 0x00, 0x62, 0x00] = [0x61, 0, 0x62, 0]
   \<and> 0 \<in> set (read_file_bytes_to_text [0x61, 0x00, 0x62, 0x00])"
  by (simp add: read_file_bytes_to_text_def decode_utf8_sig_def decode_utf8_def)

section \<open>Path flattener\<close>

lemma split_on_nonempty: "split_on c s \<noteq> []"
  by (induction s) (auto split: list.splits)

lemma split_on_absent: "c \<notin> set s \<Longrightarrow> split_on c s = [s]"
  by (induction s) auto

lemma split_on_segment: "c \<notin> set k \<Longrightarrow> split_on c (k @ c # r) = k # split_on c r"
  by (induction k) (auto split: list.splits simp: split_on_nonempty)

lemma split_on_dotted:
  "dot \<notin> set k \<Longrightarrow> \<forall>x\<in>set ks. dot \<notin> set x \<Longrightarrow> split_on dot (k @ dotted ks) = k # ks"
proof (induction ks arbitrary: k)
  case Nil
  then show ?case by (simp add: dotted_def split_on_absent)
next
  case (Cons a ks)
  have "split_on dot (k @ dotted (a # ks)) = split_on dot (k @ dot # (a @ dotted ks))"
    by (simp add: dotted_def)
  also have "\<dots> = k # split_on dot (a @ dotted ks)"
    using Cons.prems(1) by (rule split_on_segment)
  also have "\<dots> = k # a # ks"
    using Cons.IH [of a] Cons.prems(2) by simp
  finally show ?case .
qed

lemma flatten_paths:
  fixes v :: "'f json" and kvs :: "(pystr \<times> 'f json) list" and xs :: "'f json list"
  shows
  "mappings_only v \<Longrightarrow> (p, leaf) \<in> set (flatten v prefix) \<Longrightarrow> prefix \<noteq> [] \<Longrightarrow>
     \<exists>ks. p = prefix @ dotted ks \<and> (\<forall>x\<in>set ks. dot \<notin> set x) \<and> walk v ks = Some leaf"
  and
  "mappings_only_items kvs \<Longrightarrow> distinct (map fst kvs) \<Longrightarrow>
     (p, leaf) \<in> set (flatten_dict kvs prefix) \<Longrightarrow> prefix \<noteq> [] \<Longrightarrow>
     \<exists>k ks. p = prefix @ dotted (k # ks) \<and> (\<forall>x\<in>set (k # ks). dot \<notin> set x)
        \<and> walk (JDict kvs) (k # ks) = Some leaf"
  and
  "xs = [] \<Longrightarrow> (p, leaf) \<in> set (flatten_list xs i prefix) \<Longrightarrow> False"
proof (induction v prefix and kvs prefix and xs i prefix
       arbitrary: p leaf and p leaf and p leaf rule: flatten_flatten_dict_flatten_list.induct)
  case (1 kvs prefix)
  then obtain k ks where "p = prefix @ dotted (k # ks)" "\<forall>x\<in>set (k # ks). dot \<notin> set x"
    "walk (JDict kvs) (k # ks) = Some leaf"
    by fastforce
  then show ?case by blast
next
  case (2 xs prefix)
  then show ?case by simp
next
  case (3 prefix)
  then have "p = prefix @ dotted []" "walk (JNull :: 'f json) [] = Some leaf"
    by (simp_all add: dotted_def)
  then show ?case by fastforce
next
  case (4 b prefix)
  then have "p = prefix @ dotted []" "walk (JBool b :: 'f json) [] = Some leaf"
    by (simp_all add: dotted_def)
  then show ?case by fastforce
next
  case (5 i prefix)
  then have "p = prefix @ dotted []" "walk (JInt i :: 'f json) [] = Some leaf"
    by (simp_all add: dotted_def)
  then show ?case by fastforce
next
  case (6 x prefix)
  then have "p = prefix @ dotted []" "walk (JFloat x) [] = Some leaf"
    by (simp_all add: dotted_def)
  then show ?case by fastforce
next
  case (7 s prefix)
  then have "p = prefix @ dotted []" "walk (JStr s :: 'f json) [] = Some leaf"
    by (simp_all add: dotted_def)
  then show ?case by fastforce
next
  case (8 prefix)
  then show ?case by simp
next
  case (9 kv kvs prefix)
  from "9.prems" have ok: "dot \<notin> set (fst kv)" "mappings_only (snd kv)" "mappings_only_items kvs"
    and dist: "fst kv \<notin> set (map fst kvs)" "distinct (map fst kvs)"
    by simp_all
  from "9.prems" consider
      (here) "(p, leaf) \<in> set (flatten (snd kv) (prefix @ [dot] @ fst kv))"
    | (later) "(p, leaf) \<in> set (flatten_dict kvs prefix)"
    by auto
  then show ?case
  proof cases
    case here
    have "\<exists>ks. p = (prefix @ [dot] @ fst kv) @ dotted ks \<and> (\<forall>x\<in>set ks. dot \<notin> set x)
            \<and> walk (snd kv) ks = Some leaf"
      using "9.IH"(1) [OF ok(2), of p leaf] here "9.prems"(4) by simp
    then obtain ks where ks: "p = (prefix @ [dot] @ fst kv) @ dotted ks"
      "\<forall>x\<in>set ks. dot \<notin> set x" "walk (snd kv) ks = Some leaf"
      by blast
    have "p = prefix @ dotted (fst kv # ks)"
      using ks(1) by (simp add: dotted_def)
    moreover have "\<forall>x\<in>set (fst kv # ks). dot \<notin> set x"
      using ks(2) ok(1) by simp
    moreover have "walk (JDict (kv # kvs)) (fst kv # ks) = Some leaf"
      using ks(3) by simp
    ultimately show ?thesis by blast
  next
    case later
    from "9.IH"(2) [OF ok(3) dist(2) later "9.prems"(4)]
    obtain k ks where ks: "p = prefix @ dotted (k # ks)" "\<forall>x\<in>set (k # ks). dot \<notin> set x"
      "walk (JDict kvs) (k # ks) = Some leaf"
      by blast
    from ks(3) have "map_of kvs k \<noteq> None"
      by (auto split: option.splits)
    then have "k \<in> fst ` set kvs"
      by (simp add: map_of_eq_None_iff)
    with dist(1) have "k \<noteq> fst kv" by (auto simp: image_iff)
    with ks(3) have "walk (JDict (kv # kvs)) (k # ks) = Some leaf"
      by simp
    with ks(1,2) show ?thesis by blast
  qed
next
  case (10 i prefix)
  then show ?case by simp
next
  case (11 x xs i prefix)
  then show ?case by simp
qed


lemma flatten_leaves_scalar:
  fixes v :: "'f json" and kvs :: "(pystr \<times> 'f json) list" and xs :: "'f json list"
  shows "(p, leaf) \<in> set (flatten v prefix) \<Longrightarrow> is_scalar leaf"
    and "(p, leaf) \<in> set (flatten_dict kvs prefix) \<Longrightarrow> is_scalar leaf"
    and "(p, leaf) \<in> set (flatten_list xs i prefix) \<Longrightarrow> is_scalar leaf"
  by (induction v prefix and kvs prefix and xs i prefix
      arbitrary: p leaf and p leaf and p leaf rule: flatten_flatten_dict_flatten_list.induct) auto

lemma flatten_scalar: "is_scalar v \<Longrightarrow> flatten v prefix = [(prefix, v)]"
  by (cases v) simp_all


lemma flatten_entry_paths:
  "(k, v) \<in> set kvs \<Longrightarrow>
   set (flatten v (if prefix \<noteq> [] then prefix @ [dot] @ k else k)) \<subseteq> set (flatten_dict kvs prefix)"
  by (induction kvs) auto

lemma flatten_entries_apart:
  assumes "distinct (map fst (flatten_dict kvs prefix))"
    and "(k1, v1) \<in> set kvs" "(k2, v2) \<in> set kvs" "k1 \<noteq> k2"
    and "q \<in> fst ` set (flatten v1 (if prefix \<noteq> [] then prefix @ [dot] @ k1 else k1))"
    and "q \<in> fst ` set (flatten v2 (if prefix \<noteq> [] then prefix @ [dot] @ k2 else k2))"
  shows False
  using assms
proof (induction kvs)
  case Nil
  then show ?case by simp
next
  case (Cons kv kvs)
  let ?pfx = "\<lambda>k. if prefix \<noteq> [] then prefix @ [dot] @ k else k"
  from Cons.prems(1) have apart:
      "fst ` set (flatten (snd kv) (?pfx (fst kv))) \<inter> fst ` set (flatten_dict kvs prefix) = {}"
    and rest: "distinct (map fst (flatten_dict kvs prefix))"
    by auto
  have in_rest: "\<And>k v q. (k, v) \<in> set kvs \<Longrightarrow> q \<in> fst ` set (flatten v (?pfx k))
      \<Longrightarrow> q \<in> fst ` set (flatten_dict kvs prefix)"
    using flatten_entry_paths [of _ _ kvs prefix] by fastforce
  show ?case
  proof (cases "(k1, v1) = kv")
    case True
    with Cons.prems(3,4) have "(k2, v2) \<in> set kvs" by auto
    from in_rest [OF this Cons.prems(6)] have "q \<in> fst ` set (flatten_dict kvs prefix)" .
    moreover from True Cons.prems(5) have "q \<in> fst ` set (flatten (snd kv) (?pfx (fst kv)))"
      by auto
    ultimately show False using apart by blast
  next
    case False
    with Cons.prems(2) have one: "(k1, v1) \<in> set kvs" by simp
    show False
    proof (cases "(k2, v2) = kv")
      case True
      from in_rest [OF one Cons.prems(5)] have "q \<in> fst ` set (flatten_dict kvs prefix)" .
      moreover from True Cons.prems(6) have "q \<in> fst ` set (flatten (snd kv) (?pfx (fst kv)))"
        by auto
      ultimately show False using apart by blast
    next
      case False
      with Cons.prems(3) have "(k2, v2) \<in> set kvs" by simp
      from Cons.IH [OF rest one this Cons.prems(4,5,6)] show False .
    qed
  qed
qed

lemma flatten_dict_top:
  fixes kvs :: "(pystr \<times> 'f json) list"
  assumes "\<forall>kv\<in>set kvs. fst kv \<noteq> [] \<and> mappings_only (snd kv)
             \<and> (is_scalar (snd kv) \<or> dot \<notin> set (fst kv))"
    and "(p, leaf) \<in> set (flatten_dict kvs [])"
  shows "\<exists>k v. (k, v) \<in> set kvs \<and> k \<noteq> []
           \<and> (p, leaf) \<in> set (flatten v k)
           \<and> ((is_scalar v \<and> p = k \<and> leaf = v)
              \<or> (\<exists>k' ks. dot \<notin> set k \<and> p = k @ dotted (k' # ks)
                    \<and> (\<forall>x\<in>set (k' # ks). dot \<notin> set x) \<and> walk v (k' # ks) = Some leaf))"
  using assms
proof (induction kvs)
  case Nil
  then show ?case by simp
next
  case (Cons kv kvs)
  from Cons.prems(1) have ok: "fst kv \<noteq> []" "mappings_only (snd kv)"
      "is_scalar (snd kv) \<or> dot \<notin> set (fst kv)"
    and rest: "\<forall>kv\<in>set kvs. fst kv \<noteq> [] \<and> mappings_only (snd kv)
             \<and> (is_scalar (snd kv) \<or> dot \<notin> set (fst kv))"
    by simp_all
  from Cons.prems(2) ok(1) consider
      (here) "(p, leaf) \<in> set (flatten (snd kv) (fst kv))"
    | (later) "(p, leaf) \<in> set (flatten_dict kvs [])"
    by auto
  then show ?case
  proof cases
    case here
    show ?thesis
    proof (cases "is_scalar (snd kv)")
      case True
      then have "flatten (snd kv) (fst kv) = [(fst kv, snd kv)]" by (rule flatten_scalar)
      with here have "p = fst kv" "leaf = snd kv"
        by auto
      with True ok(1) here show ?thesis
        by (intro exI [of _ "fst kv"] exI [of _ "snd kv"]) simp
    next
      case False
      with ok(3) have nodot: "dot \<notin> set (fst kv)" by simp
      from flatten_paths(1) [OF ok(2) here ok(1)]
      obtain ks where ks: "p = fst kv @ dotted ks" "\<forall>x\<in>set ks. dot \<notin> set x"
        "walk (snd kv) ks = Some leaf"
        by blast
      have "ks \<noteq> []"
      proof
        assume "ks = []"
        with ks(3) have "leaf = snd kv" by simp
        with flatten_leaves_scalar(1) [OF here] False show False by simp
      qed
      then obtain k' ks' where "ks = k' # ks'" by (cases ks) auto
      with ks nodot ok(1) here show ?thesis
        by (intro exI [of _ "fst kv"] exI [of _ "snd kv"]) auto
    qed
  next
    case later
    from Cons.IH [OF rest later] show ?thesis by auto
  qed
qed

lemma update_entries: "set (AList.update k v al) \<subseteq> insert (k, v) (set al)"
  by (induction al) auto

lemma dict_of_items_entries_aux:
  "set (foldl (\<lambda>d kv. AList.update (fst kv) (snd kv) d) acc items) \<subseteq> set acc \<union> set items"
proof (induction items arbitrary: acc)
  case Nil
  then show ?case by simp
next
  case (Cons a items)
  have "set (AList.update (fst a) (snd a) acc) \<subseteq> insert a (set acc)"
    using update_entries [of "fst a" "snd a" acc] by simp
  with Cons [of "AList.update (fst a) (snd a) acc"] show ?case by auto
qed

lemma dict_of_items_entries: "set (dict_of_items items) \<subseteq> set items"
  using dict_of_items_entries_aux [of "[]" items] by (simp add: dict_of_items_def)

lemma dot_in_dotted: "dot \<in> set (k @ dotted (k' # ks))"
  by (simp add: dotted_def)

text \<open>
  C2, amended. Take a record whose top-level keys are not empty, whose values nest mappings
  only (no list elements, no dot in a key below the top level), where a top-level key
  contains a dot only if its value is a scalar, and where no two leaves flatten to the same
  path. Then every pair (path, value) of \<open>flatten_record\<close> is found again:
  \<open>get_nested_value\<close> at that path returns that value. A flat record with dotted keys,
  such as \<open>{"Receiver.Name": "Jane"}\<close>, is of this kind.
\<close>

theorem flatten_then_lookup_mappings:
  fixes kvs :: "(pystr \<times> 'f json) list"
  assumes keys: "distinct (map fst kvs)"
    and shape: "\<forall>kv\<in>set kvs. fst kv \<noteq> [] \<and> mappings_only (snd kv)
             \<and> (is_scalar (snd kv) \<or> dot \<notin> set (fst kv))"
    and paths: "distinct (map fst (flatten (JDict kvs) []))"
    and entry: "(p, leaf) \<in> set (flatten_record (JDict kvs))"
  shows "get_nested_value (JDict kvs) (Some p) = Inr leaf"
proof -
  from entry have "(p, leaf) \<in> set (flatten_dict kvs [])"
    using dict_of_items_entries [of "flatten (JDict kvs) []"] by (auto simp: flatten_record_def)
  from flatten_dict_top [OF shape this]
  obtain k v where kv: "(k, v) \<in> set kvs" "k \<noteq> []" "(p, leaf) \<in> set (flatten v k)"
    and cases: "(is_scalar v \<and> p = k \<and> leaf = v)
              \<or> (\<exists>k' ks. dot \<notin> set k \<and> p = k @ dotted (k' # ks)
                    \<and> (\<forall>x\<in>set (k' # ks). dot \<notin> set x) \<and> walk v (k' # ks) = Some leaf)"
    by blast
  from keys kv(1) have at_k: "map_of kvs k = Some v"
    by simp
  from cases show ?thesis
  proof
    assume "is_scalar v \<and> p = k \<and> leaf = v"
    with at_k kv(2) show ?thesis
      by (simp add: get_nested_value_def)
  next
    assume "\<exists>k' ks. dot \<notin> set k \<and> p = k @ dotted (k' # ks)
                    \<and> (\<forall>x\<in>set (k' # ks). dot \<notin> set x) \<and> walk v (k' # ks) = Some leaf"
    then obtain k' ks where nodot: "dot \<notin> set k" and p: "p = k @ dotted (k' # ks)"
      and free: "\<forall>x\<in>set (k' # ks). dot \<notin> set x" and walk: "walk v (k' # ks) = Some leaf"
      by blast
    have nonempty: "p \<noteq> []" using p kv(2) by simp
    have dotp: "dot \<in> set p" unfolding p by (rule dot_in_dotted)
    have split: "split_on dot p = k # k' # ks"
      unfolding p using nodot free by (rule split_on_dotted)
    have walk_all: "walk (JDict kvs) (k # k' # ks) = Some leaf"
      using at_k walk by simp
    have no_key: "map_of kvs p = None"
    proof (rule ccontr)
      assume "map_of kvs p \<noteq> None"
      then obtain v' where "map_of kvs p = Some v'" by auto
      then have there: "(p, v') \<in> set kvs" by (rule map_of_SomeD)
      with shape dotp have "is_scalar v'" by auto
      then have "flatten v' p = [(p, v')]" by (rule flatten_scalar)
      then have one: "p \<in> fst ` set (flatten v' (if [] \<noteq> ([] :: pystr) then [] @ [dot] @ p else p))"
        by simp
      from kv(3) have two: "p \<in> fst ` set (flatten v (if [] \<noteq> ([] :: pystr) then [] @ [dot] @ k else k))"
        by force
      from nodot dotp have "p \<noteq> k" by auto
      from paths have "distinct (map fst (flatten_dict kvs []))" by simp
      from flatten_entries_apart [OF this there kv(1) \<open>p \<noteq> k\<close> one two] show False .
    qed
    show ?thesis
      using nonempty no_key split walk_all by (simp add: get_nested_value_def)
  qed
qed


theorem flatten_then_lookup_mappings_witness:
  "distinct (map fst [(lit ''Receiver.Name'', JStr (lit ''Jane'')),
                      (lit ''a'', JDict [(lit ''b'', JInt 1 :: unit json)])])
   \<and> [] \<notin> set (map fst [(lit ''Receiver.Name'', JStr (lit ''Jane'')),
                              (lit ''a'', JDict [(lit ''b'', JInt 1 :: unit json)])])
   \<and> is_scalar (JStr (lit ''Jane'') :: unit json)
   \<and> dot \<in> set (lit ''Receiver.Name'')
   \<and> mappings_only (JDict [(lit ''b'', JInt 1 :: unit json)])
   \<and> dot \<notin> set (lit ''a'')
   \<and> distinct (map fst (flatten (JDict [(lit ''Receiver.Name'', JStr (lit ''Jane'')),
                                         (lit ''a'', JDict [(lit ''b'', JInt 1 :: unit json)])]) []))
   \<and> flatten_record (JDict [(lit ''Receiver.Name'', JStr (lit ''Jane'')),
                             (lit ''a'', JDict [(lit ''b'', JInt 1 :: unit json)])])
       = [(lit ''Receiver.Name'', JStr (lit ''Jane'')), (lit ''a.b'', JInt 1)]
   \<and> get_nested_value (JDict [(lit ''Receiver.Name'', JStr (lit ''Jane'')),
                               (lit ''a'', JDict [(lit ''b'', JInt 1 :: unit json)])])
        (Some (lit ''Receiver.Name'')) = Inr (JStr (lit ''Jane''))
   \<and> get_nested_value (JDict [(lit ''Receiver.Name'', JStr (lit ''Jane'')),
                               (lit ''a'', JDict [(lit ''b'', JInt 1 :: unit json)])])
        (Some (lit ''a.b'')) = Inr (JInt 1)"
proof -
  let ?kvs = "[(lit ''Receiver.Name'', JStr (lit ''Jane'')),
               (lit ''a'', JDict [(lit ''b'', JInt 1 :: unit json)])]"
  have h1: "distinct (map fst ?kvs)"
    by (simp add: lit_def)
  have h2: "\<forall>kv\<in>set ?kvs. fst kv \<noteq> [] \<and> mappings_only (snd kv)
             \<and> (is_scalar (snd kv) \<or> dot \<notin> set (fst kv))"
    by (simp add: lit_def)
  have h3: "distinct (map fst (flatten (JDict ?kvs) []))"
    by (simp add: lit_def)
  have flat: "flatten_record (JDict ?kvs)
        = [(lit ''Receiver.Name'', JStr (lit ''Jane'')), (lit ''a.b'', JInt 1)]"
    by (simp add: flatten_record_def dict_of_items_def lit_def)
  have e1: "(lit ''Receiver.Name'', JStr (lit ''Jane'')) \<in> set (flatten_record (JDict ?kvs))"
    and e2: "(lit ''a.b'', JInt 1) \<in> set (flatten_record (JDict ?kvs))"
    unfolding flat by simp_all
  have facts: "[] \<notin> set (map fst ?kvs)" "is_scalar (JStr (lit ''Jane'') :: unit json)"
    "dot \<in> set (lit ''Receiver.Name'')" "mappings_only (JDict [(lit ''b'', JInt 1 :: unit json)])"
    "dot \<notin> set (lit ''a'')"
    by (simp_all add: lit_def)
  show ?thesis
    using h1 h3 flat facts
      flatten_then_lookup_mappings [OF h1 h2 h3 e1]
      flatten_then_lookup_mappings [OF h1 h2 h3 e2]
    by simp
qed

text \<open>
  C2 as stated fails outside these records. A path with a bracketed index:
  \<open>{"a": [{"b": 1}]}\<close> flattens to the single path \<open>a[0].b\<close>, and the lookup of that path
  returns \<open>None\<close> (no key \<open>a[0]\<close>, no key \<open>a[0]_b\<close>). A key with a dot above a nested
  value: \<open>{"a.b": {"c": 1}}\<close> flattens to \<open>a.b.c\<close>, which is no key, whose first part \<open>a\<close>
  is no key, and neither is \<open>a_b_c\<close>. A key with a dot below the top level:
  \<open>{"a": {"b.c": 1}}\<close> flattens to \<open>a.b.c\<close> as well, and the walk stops at \<open>b\<close>. Two leaves
  with one path: \<open>{"a.b": 1, "a": {"b": 2}}\<close> flattens to \<open>{"a.b": 2}\<close>, and the lookup
  returns the direct hit \<open>1\<close>. An empty key: \<open>{"": 5}\<close> flattens to \<open>{"": 5}\<close>, and the
  lookup of the empty path returns the record itself.
\<close>

theorem flatten_then_lookup_counterexample:
  "(lit ''a[0].b'', JInt 1)
     \<in> set (flatten_record (JDict [(lit ''a'', JList [JDict [(lit ''b'', JInt 1 :: unit json)]])]))
   \<and> get_nested_value (JDict [(lit ''a'', JList [JDict [(lit ''b'', JInt 1 :: unit json)]])])
        (Some (lit ''a[0].b'')) = Inr JNull
   \<and> (lit ''a.b.c'', JInt 1)
     \<in> set (flatten_record (JDict [(lit ''a.b'', JDict [(lit ''c'', JInt 1 :: unit json)])]))
   \<and> get_nested_value (JDict [(lit ''a.b'', JDict [(lit ''c'', JInt 1 :: unit json)])])
        (Some (lit ''a.b.c'')) = Inr JNull
   \<and> (lit ''a.b.c'', JInt 1)
     \<in> set (flatten_record (JDict [(lit ''a'', JDict [(lit ''b.c'', JInt 1 :: unit json)])]))
   \<and> get_nested_value (JDict [(lit ''a'', JDict [(lit ''b.c'', JInt 1 :: unit json)])])
        (Some (lit ''a.b.c'')) = Inr JNull
   \<and> (lit ''a.b'', JInt 2)
     \<in> set (flatten_record (JDict [(lit ''a.b'', JInt 1),
                                    (lit ''a'', JDict [(lit ''b'', JInt 2 :: unit json)])]))
   \<and> get_nested_value (JDict [(lit ''a.b'', JInt 1),
                               (lit ''a'', JDict [(lit ''b'', JInt 2 :: unit json)])])
        (Some (lit ''a.b'')) = Inr (JInt 1)
   \<and> ([], JInt 5) \<in> set (flatten_record (JDict [([], JInt 5 :: unit json)]))
   \<and> get_nested_value (JDict [([], JInt 5 :: unit json)]) (Some [])
        = Inr (JDict [([], JInt 5)])"
  by (simp add: flatten_record_def dict_of_items_def lit_def str_nat_def
      get_nested_value_def dict_get_def replace_char_def)

section \<open>Delimiter detection: properties\<close>

lemma pick_best_spec:
  "pick_best cs sample (b, n) = (r, m) \<Longrightarrow>
     (r = b \<and> m = n \<and> (\<forall>c\<in>set cs. int (count_char c sample) \<le> n))
   \<or> (r \<in> set cs \<and> m = int (count_char r sample) \<and> n < m
       \<and> (\<forall>c\<in>set cs. int (count_char c sample) \<le> m)
       \<and> (\<forall>c\<in>set (takeWhile (\<lambda>c. c \<noteq> r) cs). int (count_char c sample) < m))"
proof (induction cs arbitrary: b n)
  case Nil
  then show ?case by simp
next
  case (Cons c cs)
  show ?case
  proof (cases "int (count_char c sample) > n")
    case True
    with Cons.prems have "pick_best cs sample (c, int (count_char c sample)) = (r, m)"
      by simp
    from Cons.IH [OF this] True show ?thesis
      by (auto simp: takeWhile_eq_Nil_iff)
  next
    case False
    with Cons.prems have "pick_best cs sample (b, n) = (r, m)"
      by simp
    from Cons.IH [OF this] False show ?thesis
      by auto
  qed
qed

text \<open>
  C6, amended. \<open>detect_csv_delimiter\<close> returns a candidate whose count in the sample is the
  highest, and every candidate that comes before it in the order comma, tab, semicolon,
  pipe has a strictly smaller count. The sample is the first ten non-blank lines joined by
  newlines. With as many commas as semicolons in \<open>"a,b;c\n1,2;3\n4,5;6"\<close> the result is
  the comma.
\<close>

theorem detect_csv_delimiter_first_maximum:
  "detect_csv_delimiter t \<in> set delimiter_candidates
   \<and> (\<forall>c\<in>set delimiter_candidates.
         count_char c (delimiter_sample t) \<le> count_char (detect_csv_delimiter t) (delimiter_sample t))
   \<and> (\<forall>c\<in>set (takeWhile (\<lambda>c. c \<noteq> detect_csv_delimiter t) delimiter_candidates).
         count_char c (delimiter_sample t) < count_char (detect_csv_delimiter t) (delimiter_sample t))
   \<and> detect_csv_delimiter (lit ''a,b;c'' @ [10] @ lit ''1,2;3'' @ [10] @ lit ''4,5;6'') = 44"
proof -
  obtain r m where rm: "pick_best delimiter_candidates (delimiter_sample t) (44, - 1) = (r, m)"
    by (cases "pick_best delimiter_candidates (delimiter_sample t) (44, - 1)")
  then have r: "detect_csv_delimiter t = r"
    by (simp add: detect_csv_delimiter_def)
  have "\<not> (\<forall>c\<in>set delimiter_candidates. int (count_char c (delimiter_sample t)) \<le> - 1)"
    by (auto simp: delimiter_candidates_def)
  with pick_best_spec [OF rm]
  have "r \<in> set delimiter_candidates"
    and "\<forall>c\<in>set delimiter_candidates. int (count_char c (delimiter_sample t)) \<le> m"
    and "\<forall>c\<in>set (takeWhile (\<lambda>c. c \<noteq> r) delimiter_candidates).
            int (count_char c (delimiter_sample t)) < m"
    and "m = int (count_char r (delimiter_sample t))"
    by blast+
  moreover have "detect_csv_delimiter (lit ''a,b;c'' @ [10] @ lit ''1,2;3'' @ [10] @ lit ''4,5;6'') = 44"
    by (simp add: detect_csv_delimiter_def delimiter_candidates_def delimiter_sample_def
        nonblank_lines_def strip_def is_space_def is_linebreak_def count_char_def lit_def)
  ultimately show ?thesis
    using r by simp
qed

theorem detect_csv_delimiter_first_maximum_witness:
  "detect_csv_delimiter (lit ''a|b|c,d'') = 124
   \<and> takeWhile (\<lambda>c. c \<noteq> 124) delimiter_candidates = [44, 9, 59]
   \<and> count_char 44 (delimiter_sample (lit ''a|b|c,d'')) < count_char 124 (delimiter_sample (lit ''a|b|c,d''))
   \<and> count_char 9 (delimiter_sample (lit ''a|b|c,d'')) < count_char 124 (delimiter_sample (lit ''a|b|c,d''))
   \<and> count_char 59 (delimiter_sample (lit ''a|b|c,d'')) < count_char 124 (delimiter_sample (lit ''a|b|c,d''))"
proof -
  have r: "detect_csv_delimiter (lit ''a|b|c,d'') = 124"
    by (simp add: detect_csv_delimiter_def delimiter_candidates_def delimiter_sample_def
        nonblank_lines_def strip_def is_space_def is_linebreak_def count_char_def lit_def)
  have t: "takeWhile (\<lambda>c. c \<noteq> 124) delimiter_candidates = [44, 9, 59]"
    by (simp add: delimiter_candidates_def)
  show ?thesis
    using detect_csv_delimiter_first_maximum [of "lit ''a|b|c,d''"] unfolding r t by simp
qed

text \<open>
  C6 as stated fails on the order of the candidates: in \<open>"a;b\tc"\<close> the semicolon and the tab
  both occur once, which is the highest count, and the result is the tab, not the semicolon.
\<close>

theorem detect_csv_delimiter_tab_before_semicolon:
  "detect_csv_delimiter (lit ''a;b'' @ [9] @ lit ''c'') = 9
   \<and> count_char 44 (delimiter_sample (lit ''a;b'' @ [9] @ lit ''c'')) = 0
   \<and> count_char 59 (delimiter_sample (lit ''a;b'' @ [9] @ lit ''c'')) = 1
   \<and> count_char 9 (delimiter_sample (lit ''a;b'' @ [9] @ lit ''c'')) = 1
   \<and> count_char 124 (delimiter_sample (lit ''a;b'' @ [9] @ lit ''c'')) = 0"
  by (simp add: detect_csv_delimiter_def delimiter_candidates_def delimiter_sample_def
      nonblank_lines_def strip_def is_space_def is_linebreak_def count_char_def lit_def)


section \<open>Lookup with an empty path\<close>

text \<open>
  C10. With a path that is \<open>None\<close> or the empty string, \<open>get_nested_value\<close> returns the
  object it was given, whatever that object is, and not \<open>None\<close>.
\<close>

theorem get_nested_value_empty_path:
  "get_nested_value obj None = Inr obj \<and> get_nested_value obj (Some []) = Inr obj"
  by (simp add: get_nested_value_def)

lemmas sample_eval = parse_sample_to_records_def parse_text_def sample_files_def sample_parsers_def
  json_documents_def xml_documents_def ascii_bytes_def lit_def
  doc_nested_def doc_single_def doc_items_def doc_rows_def doc_ten_def doc_xml_def
  doc_schema_def doc_not_a_schema_def
  read_file_bytes_to_text_def decode_utf8_sig_def decode_utf8_def strip_def is_space_def
  json_tier_def records_of_json_def container_keys_def list_values_def
  py_slice_def clamp_index_def xml_tier_def dict_update_all_def text_or_empty_def

section \<open>Sample parsing: properties\<close>

subsection \<open>Missing input\<close>

text \<open>
  C5, amended. For a path with no file, \<open>handle_sftp_sample\<close> raises
  \<open>FileNotFoundError\<close> before anything else, while \<open>parse_sample_to_records\<close> raises
  nothing and returns the empty list of records with the empty text.
\<close>

theorem missing_input_results:
  "fs path = None \<Longrightarrow>
     parse_sample_to_records lib fs path max_rows = ([], [])
     \<and> handle_sftp_sample fs read_sample path = Inl FileNotFoundError"
  by (simp add: parse_sample_to_records_def handle_sftp_sample_def)

theorem missing_input_results_witness:
  "sample_files (lit ''absent.csv'') = None
   \<and> parse_sample_to_records sample_parsers sample_files (lit ''absent.csv'') 200 = ([], [])
   \<and> handle_sftp_sample sample_files (\<lambda>p b. Inr b) (lit ''absent.csv'') = Inl FileNotFoundError"
proof -
  have h: "sample_files (lit ''absent.csv'') = None"
    by (simp add: sample_files_def lit_def)
  show ?thesis
    using h missing_input_results [where fs = sample_files and path = "lit ''absent.csv''", OF h,
        of sample_parsers 200 "\<lambda>p b. Inr b"]
    by simp
qed

text \<open>
  C5 as stated fails for \<open>parse_sample_to_records\<close>: a path with no file gives the
  ordinary result \<open>([], "")\<close>, which the caller cannot tell from an empty file.
\<close>

theorem missing_input_not_an_error:
  "parse_sample_to_records sample_parsers sample_files (lit ''no_such_file.json'') 10 = ([], [])"
  by (simp add: parse_sample_to_records_def sample_files_def lit_def)

subsection \<open>JSON objects\<close>

lemma first_container_hit:
  "cs = pre @ c # post \<Longrightarrow> map_of kvs c = Some (JList xs) \<Longrightarrow>
   \<forall>c'\<in>set pre. \<not> is_list (dict_get kvs c') \<Longrightarrow> first_container cs kvs = Some xs"
proof (induction pre arbitrary: cs)
  case Nil
  then show ?case by simp
next
  case (Cons a pre)
  from Cons.prems(3) have "\<not> is_list (dict_get kvs a)" by simp
  then have "first_container (a # pre @ c # post) kvs = first_container (pre @ c # post) kvs"
    by (auto simp: dict_get_def split: option.splits json.splits)
  with Cons show ?case by simp
qed

lemma first_container_miss:
  "\<forall>c\<in>set cs. \<not> is_list (dict_get kvs c) \<Longrightarrow> first_container cs kvs = None"
  by (induction cs) (auto simp: dict_get_def split: option.splits json.splits)

lemma list_values_first:
  "kvs = pre @ (k, JList xs) # post \<Longrightarrow> \<forall>kv\<in>set pre. \<not> is_list (snd kv) \<Longrightarrow>
   \<exists>vs. list_values kvs = JList xs # vs"
  by (induction pre arbitrary: kvs) (auto simp: list_values_def)

lemma list_values_none: "\<forall>kv\<in>set kvs. \<not> is_list (snd kv) \<Longrightarrow> list_values kvs = []"
  by (induction kvs) (auto simp: list_values_def)

lemma no_list_value_no_container:
  assumes "\<forall>kv\<in>set kvs. \<not> is_list (snd kv)"
  shows "\<not> is_list (dict_get kvs c)"
proof (cases "map_of kvs c")
  case None
  then show ?thesis by (simp add: dict_get_def)
next
  case (Some v)
  then have "(c, v) \<in> set kvs" by (rule map_of_SomeD)
  with assms Some show ?thesis by (auto simp: dict_get_def)
qed

lemma parse_json_object:
  assumes "fs path = Some b"
    and "startswith (strip (read_file_bytes_to_text b)) (lit ''{'')"
    and "json_loads lib (strip (read_file_bytes_to_text b)) = Some (JDict kvs)"
  shows "fst (parse_sample_to_records lib fs path max_rows) =
           (case first_container container_keys kvs of
              Some xs \<Rightarrow> py_slice 0 max_rows xs
            | None \<Rightarrow>
                (case list_values kvs of
                   v # vs \<Rightarrow> py_slice 0 max_rows (list_items v)
                 | [] \<Rightarrow> [JDict kvs]))"
  using assms
  by (simp add: parse_sample_to_records_def parse_text_def json_tier_def records_of_json_def
      split: option.splits list.splits)

text \<open>
  C7, amended. When \<open>json.loads\<close> returns an object, the records are the slice
  \<open>[:max_rows]\<close> of the list under the first container key (in the order shipments, items,
  data, records, payload) that holds a list; with no such key, the slice of the first value
  of the object that is a list, in the order of its keys; and with no list among the values
  of the object, the object alone, whatever lists lie deeper inside it.
\<close>

theorem json_object_records:
  assumes "fs path = Some b"
    and "startswith (strip (read_file_bytes_to_text b)) (lit ''{'')"
    and "json_loads lib (strip (read_file_bytes_to_text b)) = Some (JDict kvs)"
  shows "(container_keys = pre @ c # post \<and> map_of kvs c = Some (JList xs)
            \<and> (\<forall>c'\<in>set pre. \<not> is_list (dict_get kvs c'))
          \<longrightarrow> fst (parse_sample_to_records lib fs path max_rows) = py_slice 0 max_rows xs)
       \<and> ((\<forall>c'\<in>set container_keys. \<not> is_list (dict_get kvs c'))
            \<and> kvs = before @ (k, JList ys) # after \<and> (\<forall>kv\<in>set before. \<not> is_list (snd kv))
          \<longrightarrow> fst (parse_sample_to_records lib fs path max_rows) = py_slice 0 max_rows ys)
       \<and> ((\<forall>kv\<in>set kvs. \<not> is_list (snd kv))
          \<longrightarrow> fst (parse_sample_to_records lib fs path max_rows) = [JDict kvs])"
proof (intro conjI impI)
  assume a: "container_keys = pre @ c # post \<and> map_of kvs c = Some (JList xs)
            \<and> (\<forall>c'\<in>set pre. \<not> is_list (dict_get kvs c'))"
  from a have a1: "container_keys = pre @ c # post" by (rule conjunct1)
  from a have a2: "map_of kvs c = Some (JList xs)" by simp
  from a have a3: "\<forall>c'\<in>set pre. \<not> is_list (dict_get kvs c')" by simp
  have "first_container container_keys kvs = Some xs"
    using a1 a2 a3 by (rule first_container_hit)
  then show "fst (parse_sample_to_records lib fs path max_rows) = py_slice 0 max_rows xs"
    by (simp add: parse_json_object [where fs = fs and path = path, OF assms])
next
  assume a: "(\<forall>c'\<in>set container_keys. \<not> is_list (dict_get kvs c'))
            \<and> kvs = before @ (k, JList ys) # after \<and> (\<forall>kv\<in>set before. \<not> is_list (snd kv))"
  from a have a1: "\<forall>c'\<in>set container_keys. \<not> is_list (dict_get kvs c')" by (rule conjunct1)
  from a have a2: "kvs = before @ (k, JList ys) # after" by (rule conjunct1 [OF conjunct2])
  from a have a3: "\<forall>kv\<in>set before. \<not> is_list (snd kv)" by (rule conjunct2 [OF conjunct2])
  have none: "first_container container_keys kvs = None"
    using a1 by (rule first_container_miss)
  obtain vs where vs: "list_values kvs = JList ys # vs"
    using list_values_first [OF a2 a3] by blast
  show "fst (parse_sample_to_records lib fs path max_rows) = py_slice 0 max_rows ys"
    unfolding parse_json_object [where fs = fs and path = path, OF assms] none vs by simp
next
  assume a: "\<forall>kv\<in>set kvs. \<not> is_list (snd kv)"
  have "\<forall>c'\<in>set container_keys. \<not> is_list (dict_get kvs c')"
    using no_list_value_no_container [OF a] by blast
  then have none: "first_container container_keys kvs = None"
    by (rule first_container_miss)
  have empty: "list_values kvs = []"
    using a by (rule list_values_none)
  show "fst (parse_sample_to_records lib fs path max_rows) = [JDict kvs]"
    unfolding parse_json_object [where fs = fs and path = path, OF assms] none empty by simp
qed


lemma sample_text:
  "strip (read_file_bytes_to_text (ascii_bytes doc_items)) = lit doc_items"
  "strip (read_file_bytes_to_text (ascii_bytes doc_rows)) = lit doc_rows"
  "strip (read_file_bytes_to_text (ascii_bytes doc_single)) = lit doc_single"
  by (simp_all add: ascii_bytes_def lit_def doc_items_def doc_rows_def doc_single_def
      read_file_bytes_to_text_def decode_utf8_sig_def decode_utf8_def strip_def is_space_def)

theorem json_object_records_witness:
  "fst (parse_sample_to_records sample_parsers sample_files (lit ''items.json'') 200)
     = [JInt 2, JInt 3]
   \<and> fst (parse_sample_to_records sample_parsers sample_files (lit ''rows.json'') 1) = [JInt 5]
   \<and> fst (parse_sample_to_records sample_parsers sample_files (lit ''single.json'') 200)
     = [JDict [(lit ''id'', JInt 7)]]"
proof -
  let ?items = "[(lit ''data'', JDict [(lit ''x'', JInt 1)]), (lit ''records'', JList [JInt 4]),
                 (lit ''items'', JList [JInt 2, JInt 3 :: unit json])]"
  let ?rows = "[(lit ''meta'', JInt 1), (lit ''rows'', JList [JInt 5, JInt 6]),
                (lit ''more'', JList [JInt 8 :: unit json])]"
  let ?single = "[(lit ''id'', JInt 7 :: unit json)]"
  have f1: "sample_files (lit ''items.json'') = Some (ascii_bytes doc_items)"
    and f2: "sample_files (lit ''rows.json'') = Some (ascii_bytes doc_rows)"
    and f3: "sample_files (lit ''single.json'') = Some (ascii_bytes doc_single)"
    by (simp_all add: sample_files_def lit_def)
  have s1: "startswith (strip (read_file_bytes_to_text (ascii_bytes doc_items))) (lit ''{'')"
    and s2: "startswith (strip (read_file_bytes_to_text (ascii_bytes doc_rows))) (lit ''{'')"
    and s3: "startswith (strip (read_file_bytes_to_text (ascii_bytes doc_single))) (lit ''{'')"
    unfolding sample_text by (simp_all add: lit_def doc_items_def doc_rows_def doc_single_def)
  have j1: "json_loads sample_parsers (strip (read_file_bytes_to_text (ascii_bytes doc_items)))
              = Some (JDict ?items)"
    and j2: "json_loads sample_parsers (strip (read_file_bytes_to_text (ascii_bytes doc_rows)))
              = Some (JDict ?rows)"
    and j3: "json_loads sample_parsers (strip (read_file_bytes_to_text (ascii_bytes doc_single)))
              = Some (JDict ?single)"
    unfolding sample_text
    by (simp_all add: sample_parsers_def json_documents_def lit_def
        doc_nested_def doc_single_def doc_items_def doc_rows_def doc_ten_def
        doc_schema_def doc_not_a_schema_def)
  have r1: "fst (parse_sample_to_records sample_parsers sample_files (lit ''items.json'') 200)
              = [JInt 2, JInt 3]"
    using json_object_records [where fs = sample_files and path = "lit ''items.json''",
        OF f1 s1 j1, where pre = "[lit ''shipments'']" and c = "lit ''items''"
        and post = "[lit ''data'', lit ''records'', lit ''payload'']"
        and xs = "[JInt 2, JInt 3]" and max_rows = 200]
    by (simp add: container_keys_def dict_get_def lit_def py_slice_def clamp_index_def)
  have r2: "fst (parse_sample_to_records sample_parsers sample_files (lit ''rows.json'') 1)
              = [JInt 5]"
    using json_object_records [where fs = sample_files and path = "lit ''rows.json''",
        OF f2 s2 j2, where before = "[(lit ''meta'', JInt 1)]" and k = "lit ''rows''"
        and ys = "[JInt 5, JInt 6]" and after = "[(lit ''more'', JList [JInt 8])]"
        and max_rows = 1]
    by (simp add: container_keys_def dict_get_def lit_def py_slice_def clamp_index_def)
  have r3: "fst (parse_sample_to_records sample_parsers sample_files (lit ''single.json'') 200)
              = [JDict ?single]"
    using json_object_records [where fs = sample_files and path = "lit ''single.json''",
        OF f3 s3 j3, where max_rows = 200]
    by simp
  from r1 r2 r3 show ?thesis by simp
qed

text \<open>
  C7 as stated fails for a list below the top level: in \<open>{"a": {"b": [1, 2]}}\<close> the only
  list is the value of \<open>b\<close> inside \<open>a\<close>, and the result is the object itself as the single
  record, not that list.
\<close>

theorem nested_list_not_used:
  "json_loads sample_parsers (lit doc_nested)
     = Some (JDict [(lit ''a'', JDict [(lit ''b'', JList [JInt 1, JInt 2])])])
   \<and> fst (parse_sample_to_records sample_parsers sample_files (lit ''nested.json'') 200)
     = [JDict [(lit ''a'', JDict [(lit ''b'', JList [JInt 1, JInt 2])])]]"
  by (simp add: sample_eval)


subsection \<open>The row cap\<close>

lemma length_py_slice_to: "0 \<le> n \<Longrightarrow> int (length (py_slice 0 n xs)) \<le> n"
  by (simp add: py_slice_def clamp_index_def)

lemma py_slice_to_take: "0 \<le> n \<Longrightarrow> py_slice 0 n xs = take (nat n) xs"
  by (simp add: py_slice_def clamp_index_def min_def)

lemma length_py_slice_from_1: "0 \<le> n \<Longrightarrow> int (length (py_slice 1 (1 + n) xs)) \<le> n"
  by (cases xs) (auto simp: py_slice_def clamp_index_def min_def)

lemma reader_loop_cap:
  "reader_loop rs raises i m rows = Some out \<Longrightarrow> int (length rows) \<le> i \<Longrightarrow>
   int (length rows) \<le> m \<Longrightarrow> int (length out) \<le> m"
proof (induction rs raises i m rows rule: reader_loop.induct)
  case (1 raises i max_rows rows)
  then show ?case by (simp split: if_splits)
next
  case (2 r rs raises i max_rows rows)
  show ?case
  proof (cases "i \<ge> max_rows")
    case True
    with "2.prems" show ?thesis by simp
  next
    case False
    let ?rows = "if any_nonblank (clean_row r []) then rows @ [row_record (clean_row r [])] else rows"
    from False "2.prems"(1) have run: "reader_loop rs raises (i + 1) max_rows ?rows = Some out"
      by (simp add: Let_def)
    have "int (length ?rows) \<le> i + 1" "int (length ?rows) \<le> max_rows"
      using False "2.prems"(2) by auto
    with "2.IH" [OF False refl run] show ?thesis by simp
  qed
qed

lemma records_of_json_cap:
  "records_of_json obj m = Some out \<Longrightarrow> 1 \<le> m \<Longrightarrow> int (length out) \<le> m"
  using length_py_slice_to [of m]
  by (auto simp: records_of_json_def split: json.splits option.splits list.splits)

lemma xml_tier_single: "xml_tier lib s = Some out \<Longrightarrow> length out = 1"
  by (auto simp: xml_tier_def split: option.splits)

lemma manual_split_cap:
  assumes m: "0 \<le> m"
  shows "int (length (manual_split lines delim m :: 'f json list)) \<le> m"
proof (cases lines)
  case Nil
  with m show ?thesis by simp
next
  case (Cons first rest)
  let ?header = "map (\<lambda>h. remove_boms (strip h)) (split_on delim first)"
  have "length (manual_split lines delim m :: 'f json list)
          \<le> length (map (split_line ?header delim) (py_slice 1 (1 + m) lines))"
    unfolding Cons by (simp add: Let_def)
  also have "\<dots> = length (py_slice 1 (1 + m) lines)" by simp
  finally show ?thesis
    using length_py_slice_from_1 [OF m, of lines] by linarith
qed

lemma csv_tier_cap:
  assumes "csv_tier lib txt lines m = Some out" "0 \<le> m"
  shows "int (length out) \<le> m"
proof (cases "reader_loop (fst (csv_DictReader lib txt (detect_csv_delimiter txt)))
                (snd (csv_DictReader lib txt (detect_csv_delimiter txt))) 0 m ([] :: 'a json list)")
  case None
  with assms(1) have "out = manual_split lines (detect_csv_delimiter txt) m"
    by (simp add: csv_tier_def Let_def split: if_splits)
  with manual_split_cap [OF assms(2)] show ?thesis by simp
next
  case (Some rows)
  with assms(1) have "out = rows"
    by (simp add: csv_tier_def Let_def split: if_splits)
  with reader_loop_cap [OF Some] assms(2) show ?thesis by simp
qed

lemma raw_lines_cap: "0 \<le> m \<Longrightarrow> int (length (raw_lines lines m)) \<le> m"
  by (simp add: raw_lines_def length_py_slice_to)

lemma parse_text_cap:
  assumes "1 \<le> m"
  shows "int (length (parse_text lib txt m)) \<le> m"
proof -
  let ?s = "strip txt"
  let ?json = "if startswith ?s (lit ''{'') \<or> startswith ?s (lit ''['')
               then json_tier lib ?s m else None"
  let ?xml = "if startswith ?s (lit ''<'') then xml_tier lib ?s else None"
  let ?csv = "if nonblank_lines txt \<noteq> [] then csv_tier lib txt (nonblank_lines txt) m else None"
  show ?thesis
  proof (cases ?json)
    case (Some out)
    then have "parse_text lib txt m = out"
      by (simp add: parse_text_def)
    moreover from Some have "records_of_json (the (json_loads lib ?s)) m = Some out"
      by (auto simp: json_tier_def split: if_splits option.splits)
    ultimately show ?thesis
      using records_of_json_cap assms by blast
  next
    case None
    note no_json = this
    show ?thesis
    proof (cases ?xml)
      case (Some out)
      with no_json have "parse_text lib txt m = out"
        by (simp add: parse_text_def)
      moreover from Some have "length out = 1"
        by (auto simp: xml_tier_single split: if_splits)
      ultimately show ?thesis using assms by simp
    next
      case None
      note no_xml = this
      show ?thesis
      proof (cases ?csv)
        case (Some out)
        with no_json no_xml have "parse_text lib txt m = out"
          by (simp add: parse_text_def Let_def)
        moreover from Some have "csv_tier lib txt (nonblank_lines txt) m = Some out"
          by (simp split: if_splits)
        ultimately show ?thesis
          using csv_tier_cap assms by fastforce
      next
        case None
        with no_json no_xml have "parse_text lib txt m = raw_lines (nonblank_lines txt) m"
          by (simp add: parse_text_def Let_def)
        then show ?thesis
          using raw_lines_cap [of m "nonblank_lines txt"] assms by simp
      qed
    qed
  qed
qed

text \<open>
  C8, amended. With \<open>max_rows\<close> at least 1, \<open>parse_sample_to_records\<close> returns at most
  \<open>max_rows\<close> records, whichever tier produces them; and when the file is a JSON array,
  the records are its first \<open>max_rows\<close> elements in their order.
\<close>

theorem parse_sample_to_records_cap:
  assumes "1 \<le> max_rows"
  shows "int (length (fst (parse_sample_to_records lib fs path max_rows))) \<le> max_rows
       \<and> (fs path = Some b \<and> startswith (strip (read_file_bytes_to_text b)) (lit ''['')
            \<and> json_loads lib (strip (read_file_bytes_to_text b)) = Some (JList xs)
          \<longrightarrow> fst (parse_sample_to_records lib fs path max_rows) = take (nat max_rows) xs)"
proof (intro conjI impI)
  show "int (length (fst (parse_sample_to_records lib fs path max_rows))) \<le> max_rows"
    using parse_text_cap [OF assms, of lib] assms
    by (simp add: parse_sample_to_records_def Let_def split: option.splits)
next
  assume a: "fs path = Some b \<and> startswith (strip (read_file_bytes_to_text b)) (lit ''['')
            \<and> json_loads lib (strip (read_file_bytes_to_text b)) = Some (JList xs)"
  have "0 \<le> max_rows" using assms by simp
  then have "py_slice 0 max_rows xs = take (nat max_rows) xs"
    by (rule py_slice_to_take)
  with a show "fst (parse_sample_to_records lib fs path max_rows) = take (nat max_rows) xs"
    by (simp add: parse_sample_to_records_def parse_text_def json_tier_def records_of_json_def)
qed

theorem parse_sample_to_records_cap_witness:
  "(1::int) \<le> 3
   \<and> length (fst (parse_sample_to_records sample_parsers sample_files (lit ''ten.json'') 3)) \<le> 3
   \<and> fst (parse_sample_to_records sample_parsers sample_files (lit ''ten.json'') 3)
     = [JDict [(lit ''n'', JInt 0)], JDict [(lit ''n'', JInt 1)], JDict [(lit ''n'', JInt 2)]]"
proof -
  have h: "(1::int) \<le> 3" by simp
  have t: "strip (read_file_bytes_to_text (ascii_bytes doc_ten)) = lit doc_ten"
    by (simp add: ascii_bytes_def lit_def doc_ten_def
        read_file_bytes_to_text_def decode_utf8_sig_def decode_utf8_def strip_def is_space_def)
  have f: "sample_files (lit ''ten.json'') = Some (ascii_bytes doc_ten)"
    by (simp add: sample_files_def lit_def)
  have s: "startswith (strip (read_file_bytes_to_text (ascii_bytes doc_ten))) (lit ''['')"
    unfolding t by (simp add: lit_def doc_ten_def)
  have j: "json_loads sample_parsers (strip (read_file_bytes_to_text (ascii_bytes doc_ten)))
             = Some (JList (map (\<lambda>n. JDict [(lit ''n'', JInt n)]) [0, 1, 2, 3, 4, 5, 6, 7, 8, 9]))"
    unfolding t
    by (simp add: sample_parsers_def json_documents_def lit_def
        doc_nested_def doc_single_def doc_items_def doc_rows_def doc_ten_def
        doc_schema_def doc_not_a_schema_def)
  show ?thesis
    using h f s j
      parse_sample_to_records_cap [OF h, where lib = sample_parsers and fs = sample_files
        and path = "lit ''ten.json''" and b = "ascii_bytes doc_ten"
        and xs = "map (\<lambda>n. JDict [(lit ''n'', JInt n)]) [0, 1, 2, 3, 4, 5, 6, 7, 8, 9]"]
    by simp
qed

text \<open>
  C8 as stated fails for \<open>max_rows = 0\<close>: an XML document is always returned as one record.
\<close>

theorem single_record_exceeds_zero_cap:
  "fst (parse_sample_to_records sample_parsers sample_files (lit ''shipment.xml'') 0)
     = [JDict [(lit ''Receiver.Name'', JStr (lit ''Jane''))]]
   \<and> \<not> int (length (fst (parse_sample_to_records sample_parsers sample_files
                            (lit ''shipment.xml'') 0))) \<le> 0"
  by (simp add: sample_eval)

section \<open>Canonical builder: properties\<close>

subsection \<open>Lookups in a store that grows\<close>

lemma obj_at_take:
  assumes "take m h' = take m h" "a < m"
  shows "obj_at h' a = obj_at h a"
proof -
  have "length (take m h') = length (take m h)"
    using assms(1) by simp
  then have len: "a < length h' \<longleftrightarrow> a < length h"
    using assms(2) by auto
  have "take m h' ! a = take m h ! a"
    using assms(1) by simp
  then have "h' ! a = h ! a"
    using assms(2) by simp
  with len show ?thesis
    by (simp add: obj_at_def)
qed

lemma dict_at_take:
  assumes "take m h' = take m h" "val_in (take m h) v"
  shows "dict_at h' v = dict_at h v"
proof (cases v)
  case (VRef a)
  with assms(2) have "a < m" by (simp add: val_in_def)
  with assms(1) have "obj_at h' a = obj_at h a" by (rule obj_at_take)
  with VRef show ?thesis by (simp add: dict_at_def)
qed (simp_all add: dict_at_def)

lemma closed_vals:
  assumes "closed h" "obj_at h a = Some ob" "v \<in> set (vals_of ob)"
  shows "val_in h v"
proof -
  from assms(2) have "ob \<in> set h"
    by (auto simp: obj_at_def split: if_splits)
  with assms(1,3) show ?thesis
    by (auto simp: closed_def list_all_iff)
qed

lemma dict_at_entry:
  assumes "closed h" "dict_at h v = Some kvs" "map_of kvs k = Some w"
  shows "val_in h w"
proof -
  from assms(2) obtain a where a: "v = VRef a" "obj_at h a = Some (ODict kvs)"
    by (auto simp: dict_at_def split: val.splits option.splits obj.splits)
  from assms(3) have "w \<in> set (vals_of (ODict kvs))"
    by (force dest: map_of_SomeD)
  with assms(1) a(2) show ?thesis by (rule closed_vals)
qed

lemma walk_at_frame:
  assumes "closed h0" "take (length h0) h = h0"
  shows "val_in h0 v \<Longrightarrow> walk_at h v parts = walk_at h0 v parts"
proof (induction parts arbitrary: v)
  case Nil
  then show ?case by simp
next
  case (Cons part parts)
  have same: "dict_at h v = dict_at h0 v"
    using dict_at_take [of "length h0" h h0 v] assms(2) Cons.prems by simp
  show ?case
  proof (cases "dict_at h0 v")
    case None
    with same show ?thesis by simp
  next
    case (Some kvs)
    show ?thesis
    proof (cases "map_of kvs part")
      case None
      with Some same show ?thesis by simp
    next
      case (Some w)
      with \<open>dict_at h0 v = Some kvs\<close> assms(1) have "val_in h0 w"
        using dict_at_entry by blast
      then have "walk_at h w parts = walk_at h0 w parts" by (rule Cons.IH)
      with Some \<open>dict_at h0 v = Some kvs\<close> same show ?thesis by simp
    qed
  qed
qed


lemma get_nested_value_at_frame:
  assumes "closed h0" "take (length h0) h = h0" "val_in h0 r"
  shows "get_nested_value_at h r path = get_nested_value_at h0 r path"
proof (cases r)
  case (VRef a)
  with assms(3) have "a < length h0" by (simp add: val_in_def)
  with assms(2) have "obj_at h a = obj_at h0 a"
    using obj_at_take [of "length h0" h h0 a] by simp
  moreover have "\<And>parts. walk_at h r parts = walk_at h0 r parts"
    using assms by (rule walk_at_frame)
  ultimately show ?thesis
    using VRef
    by (cases path) (auto simp: get_nested_value_at_def split: option.splits obj.splits)
qed (simp_all add: get_nested_value_at_def split: option.splits)


subsection \<open>The lookup on the store and on JSON values\<close>

lemma those_entries:
  "those (map (\<lambda>kv. map_option (Pair (fst kv)) (f (snd kv))) kvs) = Some kvs' \<Longrightarrow>
   map_of kvs' k = (case map_of kvs k of None \<Rightarrow> None | Some v \<Rightarrow> f v)
   \<and> (\<forall>v. map_of kvs k = Some v \<longrightarrow> f v \<noteq> None)"
proof (induction kvs arbitrary: kvs')
  case Nil
  then show ?case by simp
next
  case (Cons kv kvs)
  from Cons.prems obtain j js where j: "f (snd kv) = Some j"
    and js: "those (map (\<lambda>kv. map_option (Pair (fst kv)) (f (snd kv))) kvs) = Some js"
    and kvs': "kvs' = (fst kv, j) # js"
    by (auto split: option.splits)
  from Cons.IH [OF js] j kvs' show ?case
    by (cases kv) auto
qed

lemma those_elems:
  "those (map f xs) = Some ys \<Longrightarrow> Some ` set ys = f ` set xs"
proof (induction xs arbitrary: ys)
  case Nil
  then show ?case by simp
next
  case (Cons x xs)
  from Cons.prems obtain j js where "f x = Some j" "those (map f xs) = Some js" "ys = j # js"
    by (auto split: option.splits)
  with Cons.IH [of js] show ?case by simp
qed

lemma fetch_str: "fetch d h x = Some (JStr p) \<longleftrightarrow> x = VStr p"
proof (cases x)
  case (VRef a)
  then show ?thesis
    by (cases d) (auto split: option.splits obj.splits)
qed auto

lemma fetch_dict:
  assumes "fetch d h r = Some j" "dict_at h r = Some kvs"
  shows "\<exists>d' kvs'. d = Suc d' \<and> j = JDict kvs'
           \<and> those (map (\<lambda>kv. map_option (Pair (fst kv)) (fetch d' h (snd kv))) kvs) = Some kvs'"
proof -
  from assms(2) obtain a where a: "r = VRef a" "obj_at h a = Some (ODict kvs)"
    by (auto simp: dict_at_def split: val.splits option.splits obj.splits)
  with assms(1) show ?thesis
    by (cases d) auto
qed

lemma fetch_not_dict:
  assumes "fetch d h r = Some j" "dict_at h r = None"
  shows "\<forall>kvs. j \<noteq> JDict kvs"
proof (cases r)
  case (VRef a)
  with assms show ?thesis
    by (cases d) (auto simp: dict_at_def split: option.splits obj.splits)
qed (use assms in auto)

lemma fetch_more: "fetch d h v = Some j \<Longrightarrow> fetch (Suc d) h v = Some j"
proof (induction d arbitrary: v j)
  case 0
  then show ?case by (cases v) simp_all
next
  case (Suc d)
  show ?case
  proof (cases v)
    case (VRef a)
    have items: "\<And>kvs js. those (map (\<lambda>kv. map_option (Pair (fst kv)) (fetch d h (snd kv))) kvs)
          = Some js \<Longrightarrow>
        those (map (\<lambda>kv. map_option (Pair (fst kv)) (fetch (Suc d) h (snd kv))) kvs) = Some js"
    proof -
      fix kvs js
      show "those (map (\<lambda>kv. map_option (Pair (fst kv)) (fetch d h (snd kv))) kvs) = Some js \<Longrightarrow>
        those (map (\<lambda>kv. map_option (Pair (fst kv)) (fetch (Suc d) h (snd kv))) kvs) = Some js"
      proof (induction kvs arbitrary: js)
        case Nil
        then show ?case by simp
      next
        case (Cons kv kvs)
        from Cons.prems obtain y ys where y: "fetch d h (snd kv) = Some y"
          "those (map (\<lambda>kv. map_option (Pair (fst kv)) (fetch d h (snd kv))) kvs) = Some ys"
          "js = (fst kv, y) # ys"
          by (auto split: option.splits)
        from Suc.IH [OF y(1)] Cons.IH [OF y(2)] y(3) show ?case by simp
      qed
    qed
    have elems: "\<And>xs js. those (map (fetch d h) xs) = Some js \<Longrightarrow>
        those (map (fetch (Suc d) h) xs) = Some js"
    proof -
      fix xs js
      show "those (map (fetch d h) xs) = Some js \<Longrightarrow>
        those (map (fetch (Suc d) h) xs) = Some js"
      proof (induction xs arbitrary: js)
        case Nil
        then show ?case by simp
      next
        case (Cons x xs)
        from Cons.prems obtain y ys where y: "fetch d h x = Some y"
          "those (map (fetch d h) xs) = Some ys" "js = y # ys"
          by (auto split: option.splits)
        from Suc.IH [OF y(1)] Cons.IH [OF y(2)] y(3) show ?case by simp
      qed
    qed
    from Suc.prems VRef show ?thesis
      by (auto split: option.splits obj.splits dest: items elems)
  qed (use Suc.prems in simp_all)
qed

lemma walk_at_tree:
  "fetch d h r = Some j \<Longrightarrow>
   (case walk_at h r parts of
      None \<Rightarrow> walk j parts = None
    | Some v \<Rightarrow> \<exists>j'. fetch d h v = Some j' \<and> walk j parts = Some j')"
proof (induction parts arbitrary: r j d)
  case Nil
  then show ?case by simp
next
  case (Cons part parts)
  show ?case
  proof (cases "dict_at h r")
    case None
    with Cons.prems fetch_not_dict [of d h r j] show ?thesis
      by (cases j) simp_all
  next
    case (Some kvs)
    from fetch_dict [OF Cons.prems Some] obtain d' kvs' where d: "d = Suc d'" "j = JDict kvs'"
      "those (map (\<lambda>kv. map_option (Pair (fst kv)) (fetch d' h (snd kv))) kvs) = Some kvs'"
      by blast
    note entries = those_entries [OF d(3), of part]
    show ?thesis
    proof (cases "map_of kvs part")
      case None
      with entries Some d show ?thesis by simp
    next
      case (Some u)
      with entries obtain ju where ju: "fetch d' h u = Some ju" "map_of kvs' part = Some ju"
        by auto
      from Cons.IH [OF ju(1)] have
        "case walk_at h u parts of
           None \<Rightarrow> walk ju parts = None
         | Some v \<Rightarrow> \<exists>j'. fetch d' h v = Some j' \<and> walk ju parts = Some j'" .
      then have "case walk_at h u parts of
           None \<Rightarrow> walk ju parts = None
         | Some v \<Rightarrow> \<exists>j'. fetch d h v = Some j' \<and> walk ju parts = Some j'"
        unfolding d(1) by (auto split: option.splits dest: fetch_more)
      with Some \<open>dict_at h r = Some kvs\<close> ju(2) d(2) show ?thesis
        by (simp split: option.splits)
    qed
  qed
qed

text \<open>
  The two readings of \<open>get_nested_value\<close> agree: on a record of the store that stands for
  the JSON value \<open>j\<close>, the lookup on the store raises what the lookup on \<open>j\<close> raises, and
  returns a value that stands for what the lookup on \<open>j\<close> returns.
\<close>

lemma get_nested_value_at_tree:
  assumes "fetch d h r = Some j"
  shows "case get_nested_value_at h r path of
           Inl e \<Rightarrow> get_nested_value j path = Inl e
         | Inr v \<Rightarrow> \<exists>j'. fetch d h v = Some j' \<and> get_nested_value j path = Inr j'"
proof (cases "path = None \<or> path = Some []")
  case True
  with assms show ?thesis
    by (auto simp: get_nested_value_at_def get_nested_value_def)
next
  case False
  then obtain p where p: "path = Some p" "p \<noteq> []" by auto
  show ?thesis
  proof (cases r)
    case (VRef a)
    with assms obtain d' ob where d: "d = Suc d'" and ob: "obj_at h a = Some ob"
      by (cases d) (auto split: option.splits)
    show ?thesis
    proof (cases ob)
      case (OList xs)
      with assms VRef d ob obtain ys where ys: "j = JList ys"
          "those (map (fetch d' h) xs) = Some ys"
        by auto
      have "JStr p \<in> set ys \<longleftrightarrow> Some (JStr p) \<in> Some ` set ys"
        by auto
      also have "\<dots> \<longleftrightarrow> Some (JStr p) \<in> fetch d' h ` set xs"
        using those_elems [OF ys(2)] by simp
      also have "\<dots> \<longleftrightarrow> (\<exists>x\<in>set xs. fetch d' h x = Some (JStr p))"
        by (metis (no_types) image_iff)
      also have "\<dots> \<longleftrightarrow> VStr p \<in> set xs"
        by (simp add: fetch_str)
      finally have "JStr p \<in> set ys \<longleftrightarrow> VStr p \<in> set xs" .
      with p VRef ob OList ys(1) show ?thesis
        by (simp add: get_nested_value_at_def get_nested_value_def)
    next
      case (ODict kvs)
      with VRef ob have dict: "dict_at h r = Some kvs" by (simp add: dict_at_def)
      from fetch_dict [OF assms dict] d obtain kvs' where kvs': "j = JDict kvs'"
        "those (map (\<lambda>kv. map_option (Pair (fst kv)) (fetch d' h (snd kv))) kvs) = Some kvs'"
        by auto
      have entry: "\<And>k. case map_of kvs k of
            None \<Rightarrow> map_of kvs' k = None
          | Some v \<Rightarrow> \<exists>j'. fetch d h v = Some j' \<and> map_of kvs' k = Some j'"
      proof -
        fix k
        from those_entries [OF kvs'(2), of k]
        show "case map_of kvs k of
            None \<Rightarrow> map_of kvs' k = None
          | Some v \<Rightarrow> \<exists>j'. fetch d h v = Some j' \<and> map_of kvs' k = Some j'"
          unfolding d by (auto split: option.splits dest: fetch_more)
      qed
      note walk = walk_at_tree [OF assms, of "split_on dot p"]
      show ?thesis
      proof (cases "map_of kvs p")
        case (Some v)
        with entry [of p] p VRef ob ODict kvs'(1) show ?thesis
          by (auto simp: get_nested_value_at_def get_nested_value_def)
      next
        case None
        with entry [of p] have direct: "map_of kvs' p = None" by simp
        show ?thesis
        proof (cases "walk_at h r (split_on dot p)")
          case (Some v)
          with walk None direct p VRef ob ODict kvs'(1) show ?thesis
            by (auto simp: get_nested_value_at_def get_nested_value_def)
        next
          case no_walk: None
          with walk have "walk j (split_on dot p) = None" by simp
          with entry [of "replace_char dot underscore p"] no_walk None direct p VRef ob ODict
            kvs'(1) show ?thesis
            by (auto simp: get_nested_value_at_def get_nested_value_def dict_get_def
                split: option.splits)
        qed
      qed
    qed
  qed (use assms p in \<open>auto simp: get_nested_value_at_def get_nested_value_def\<close>)
qed

subsection \<open>The dicts that the loop builds\<close>

lemma built_take:
  assumes "built P n m h" "take m h' = take m h"
  shows "built P n m h'"
proof -
  from assms(1) have m: "m \<le> length h" by (simp add: built_def)
  have "length (take m h') = length (take m h)" using assms(2) by simp
  with m have m': "m \<le> length h'" by simp
  have same: "\<And>a. a < m \<Longrightarrow> h' ! a = h ! a"
  proof -
    fix a assume "a < m"
    have "take m h' ! a = take m h ! a" using assms(2) by simp
    with \<open>a < m\<close> show "h' ! a = h ! a" by simp
  qed
  from assms(1) m' same show ?thesis
    by (simp add: built_def)
qed

lemma good_obj:
  assumes "good P h0 n h" "n \<le> a" "a < length h"
  shows "\<exists>kvs. h ! a = ODict kvs \<and> dict_at h (VRef a) = Some kvs
           \<and> (\<forall>v\<in>set (map snd kvs). (\<exists>b. v = VRef b \<and> a < b \<and> b < length h) \<or> P v)"
proof -
  from assms obtain kvs where "h ! a = ODict kvs"
      "\<forall>v\<in>set (map snd kvs). (\<exists>b. v = VRef b \<and> a < b \<and> b < length h) \<or> P v"
    unfolding good_def built_def by blast
  with assms(3) show ?thesis
    by (auto simp: dict_at_def obj_at_def)
qed

lemma old_dict_at:
  assumes "good P h0 n h" "b < length h0"
  shows "dict_at h (VRef b) = dict_at h0 (VRef b)"
proof -
  from assms(1) have "take (length h0) h = take (length h0) h0"
    by (simp add: good_def)
  then have "obj_at h b = obj_at h0 b"
    using assms(2) by (rule obj_at_take)
  then show ?thesis by (simp add: dict_at_def)
qed

lemma internal_ref:
  assumes good: "good P h0 n h"
    and ext: "\<And>b. P (VRef b) \<Longrightarrow> b < length h0 \<and> dict_at h0 (VRef b) = None"
    and a: "n \<le> a" "a < length h"
    and at_a: "dict_at h (VRef a) = Some kvs" "map_of kvs k = Some (VRef b)"
    and at_b: "dict_at h (VRef b) = Some d"
  shows "a < b \<and> b < length h"
proof -
  from good_obj [OF good a] at_a(1)
  have entries: "\<forall>v\<in>set (map snd kvs). (\<exists>b. v = VRef b \<and> a < b \<and> b < length h) \<or> P v"
    by auto
  from at_a(2) have "VRef b \<in> set (map snd kvs)"
    by (force dest: map_of_SomeD)
  with entries have "(a < b \<and> b < length h) \<or> P (VRef b)" by auto
  then show ?thesis
  proof
    assume "P (VRef b)"
    then have "b < length h0" "dict_at h0 (VRef b) = None"
      using ext by blast+
    with old_dict_at [OF good this(1)] at_b show ?thesis by simp
  qed
qed

lemma good_put:
  assumes good: "good P h0 n h" and a: "n \<le> a" "a < length h"
    and v: "P v \<or> (\<exists>b. v = VRef b \<and> a < b \<and> b < length h)"
  shows "good P h0 n (put h a k v) \<and> length (put h a k v) = length h
           \<and> take n (put h a k v) = take n h"
proof -
  from good_obj [OF good a] obtain kvs where kvs: "h ! a = ODict kvs"
      "dict_at h (VRef a) = Some kvs"
      "\<forall>v\<in>set (map snd kvs). (\<exists>b. v = VRef b \<and> a < b \<and> b < length h) \<or> P v"
    by blast
  let ?h = "h[a := ODict (AList.update k v kvs)]"
  have eq: "put h a k v = ?h"
    using kvs(1) a(2) by (simp add: put_def obj_at_def)
  from good have base: "length h0 \<le> n" "n < length h" "take (length h0) h = h0"
    and b: "built P n (length h) h"
    by (simp_all add: good_def)
  have "built P n (length ?h) ?h"
    unfolding built_def
  proof (intro conjI allI impI)
    show "length ?h \<le> length ?h" by simp
  next
    fix a' assume a': "n \<le> a' \<and> a' < length ?h"
    show "\<exists>kvs'. ?h ! a' = ODict kvs'
        \<and> (\<forall>v\<in>set (map snd kvs'). (\<exists>b. v = VRef b \<and> a' < b \<and> b < length ?h) \<or> P v)"
    proof (cases "a' = a")
      case True
      have "set (map snd (AList.update k v kvs)) \<subseteq> insert v (set (map snd kvs))"
        using update_entries [of k v kvs] by force
      have "\<forall>w\<in>set (map snd (AList.update k v kvs)).
              (\<exists>b. w = VRef b \<and> a' < b \<and> b < length ?h) \<or> P w"
      proof
        fix w assume "w \<in> set (map snd (AList.update k v kvs))"
        with \<open>set (map snd (AList.update k v kvs)) \<subseteq> insert v (set (map snd kvs))\<close>
        have "w = v \<or> w \<in> set (map snd kvs)" by blast
        then show "(\<exists>b. w = VRef b \<and> a' < b \<and> b < length ?h) \<or> P w"
        proof
          assume "w = v"
          with v True show ?thesis by auto
        next
          assume "w \<in> set (map snd kvs)"
          with kvs(3) True show ?thesis by auto
        qed
      qed
      with True a(2) show ?thesis by simp
    next
      case False
      with a' b show ?thesis
        by (simp add: built_def)
    qed
  qed
  moreover have "take (length h0) ?h = h0"
    using base(1,3) a(1) by simp
  moreover have "take n ?h = take n h"
    using a(1) by simp
  ultimately show ?thesis
    using base(1,2) unfolding eq by (simp add: good_def)
qed

lemma good_alloc:
  assumes "good P h0 n h"
  shows "good P h0 n (h @ [ODict []])"
proof -
  from assms have base: "length h0 \<le> n" "n < length h" "take (length h0) h = h0"
    and b: "built P n (length h) h"
    by (simp_all add: good_def)
  have "built P n (Suc (length h)) (h @ [ODict []])"
    unfolding built_def
  proof (intro conjI allI impI)
    show "Suc (length h) \<le> length (h @ [ODict []])" by simp
  next
    fix a assume a: "n \<le> a \<and> a < Suc (length h)"
    show "\<exists>kvs. (h @ [ODict []]) ! a = ODict kvs
        \<and> (\<forall>v\<in>set (map snd kvs). (\<exists>b. v = VRef b \<and> a < b \<and> b < Suc (length h)) \<or> P v)"
    proof (cases "a = length h")
      case True
      then show ?thesis by simp
    next
      case False
      with a have "a < length h" by simp
      with a b obtain kvs where "h ! a = ODict kvs"
        "\<forall>v\<in>set (map snd kvs). (\<exists>b. v = VRef b \<and> a < b \<and> b < length h) \<or> P v"
        unfolding built_def by blast
      with \<open>a < length h\<close> show ?thesis
        by (auto simp: nth_append)
    qed
  qed
  with base show ?thesis
    by (simp add: good_def)
qed

lemma sub_dict_Some:
  assumes "sub_dict h cur part = Some a"
  shows "\<exists>kvs d. dict_at h (VRef cur) = Some kvs \<and> map_of kvs part = Some (VRef a)
            \<and> dict_at h (VRef a) = Some d"
  using assms by (auto simp: sub_dict_def split: option.splits val.splits)

lemma good_set_path:
  assumes ext: "\<And>b. P (VRef b) \<Longrightarrow> b < length h0 \<and> dict_at h0 (VRef b) = None"
  shows "good P h0 n h \<Longrightarrow> n \<le> cur \<Longrightarrow> cur < length h \<Longrightarrow> P v \<Longrightarrow>
         good P h0 n (set_path parts v cur h) \<and> length h \<le> length (set_path parts v cur h)
           \<and> take n (set_path parts v cur h) = take n h"
proof (induction parts v cur h rule: set_path.induct)
  case (1 v cur h)
  then show ?case by simp
next
  case (2 key v cur h)
  from "2.prems"(4) have "P v \<or> (\<exists>b. v = VRef b \<and> cur < b \<and> b < length h)" by simp
  from good_put [OF "2.prems"(1,2,3) this, of key] show ?case by simp
next
  case (3 part r rest v cur h)
  show ?case
  proof (cases "sub_dict h cur part")
    case (Some a)
    from sub_dict_Some [OF this] obtain kvs d where
      "dict_at h (VRef cur) = Some kvs" "map_of kvs part = Some (VRef a)"
      "dict_at h (VRef a) = Some d"
      by blast
    with internal_ref [OF "3.prems"(1) ext "3.prems"(2,3)]
    have "cur < a \<and> a < length h" by blast
    with "3.prems" have "n \<le> a" "a < length h" by simp_all
    from "3.IH"(2) [OF Some "3.prems"(1) this "3.prems"(4)] Some show ?thesis by simp
  next
    case None
    let ?h1 = "h @ [ODict []]"
    let ?h2 = "put ?h1 cur part (VRef (length h))"
    have g1: "good P h0 n ?h1" using "3.prems"(1) by (rule good_alloc)
    have "good P h0 n ?h2 \<and> length ?h2 = length ?h1 \<and> take n ?h2 = take n ?h1"
      using g1 "3.prems"(2,3) by (intro good_put) simp_all
    then have g2: "good P h0 n ?h2" and len: "length ?h2 = Suc (length h)"
      and same: "take n ?h2 = take n h"
      using "3.prems"(2,3) by simp_all
    have "n \<le> length h" "length h < length ?h2"
      using "3.prems"(2,3) len by simp_all
    from "3.IH"(1) [OF None g2 this "3.prems"(4)] None len same show ?thesis by simp
  qed
qed

lemma good_apply_fields:
  assumes ext: "\<And>b. P (VRef b) \<Longrightarrow> b < length h0 \<and> dict_at h0 (VRef b) = None"
    and closed: "closed h0" and r: "val_in h0 r"
  shows "good P h0 n h \<Longrightarrow>
         \<forall>e\<in>set fs. is_mapped e \<longrightarrow>
            (\<forall>w. get_nested_value_at h0 r (partner_field e) = Inr w \<longrightarrow> w \<noteq> VNull
                  \<longrightarrow> w \<noteq> VStr [] \<longrightarrow> P (coerce bi w)) \<Longrightarrow>
         apply_fields bi r fs n h = Inr h' \<Longrightarrow>
         good P h0 n h' \<and> length h \<le> length h' \<and> take n h' = take n h"
proof (induction fs arbitrary: h)
  case Nil
  then show ?case by simp
next
  case (Cons f fs)
  from Cons.prems(2) have rest: "\<forall>e\<in>set fs. is_mapped e \<longrightarrow>
            (\<forall>w. get_nested_value_at h0 r (partner_field e) = Inr w \<longrightarrow> w \<noteq> VNull
                  \<longrightarrow> w \<noteq> VStr [] \<longrightarrow> P (coerce bi w))"
    by simp
  show ?case
  proof (cases "is_mapped f")
    case False
    then have "apply_fields bi r (f # fs) n h = apply_fields bi r fs n h"
      by (auto simp: is_mapped_def split: option.splits)
    with Cons.prems(3) Cons.IH [OF Cons.prems(1) rest] show ?thesis by simp
  next
    case True
    then obtain mapped where mapped: "mapped_to f = Some mapped" "mapped \<noteq> []"
      by (auto simp: is_mapped_def split: option.splits)
    from Cons.prems(1) have "take (length h0) h = h0" by (simp add: good_def)
    with closed r have same:
      "get_nested_value_at h r (partner_field f) = get_nested_value_at h0 r (partner_field f)"
      by (intro get_nested_value_at_frame)
    show ?thesis
    proof (cases "get_nested_value_at h0 r (partner_field f)")
      case (Inl e)
      with Cons.prems(3) mapped same show ?thesis by simp
    next
      case (Inr w)
      show ?thesis
      proof (cases "w = VNull \<or> w = VStr []")
        case True
        with Inr mapped same have "apply_fields bi r (f # fs) n h = apply_fields bi r fs n h"
          by simp
        with Cons.prems(3) Cons.IH [OF Cons.prems(1) rest] show ?thesis by simp
      next
        case False
        let ?h1 = "set_path (split_on dot mapped) (coerce bi w) n h"
        from False Inr True Cons.prems(2) have "P (coerce bi w)" by simp
        moreover from Cons.prems(1) have "n < length h" by (simp add: good_def)
        ultimately have step: "good P h0 n ?h1 \<and> length h \<le> length ?h1 \<and> take n ?h1 = take n h"
          using good_set_path [OF ext, where v = "coerce bi w" and n = n and h = h and cur = n]
            Cons.prems(1) by simp
        from False Inr mapped same Cons.prems(3)
        have "apply_fields bi r fs n ?h1 = Inr h'" by simp
        with Cons.IH [of ?h1] step rest show ?thesis by simp
      qed
    qed
  qed
qed

lemma good_ensure_object:
  assumes "good P h0 n h"
  shows "good P h0 n (ensure_object needed key n h)
           \<and> length h \<le> length (ensure_object needed key n h)
           \<and> take n (ensure_object needed key n h) = take n h"
proof (cases "\<exists>kvs. dict_at h (VRef n) = Some kvs \<and> needed \<and> map_of kvs key = None")
  case False
  then have "ensure_object needed key n h = h"
    by (auto simp: ensure_object_def split: option.splits)
  with assms show ?thesis by simp
next
  case True
  let ?h1 = "h @ [ODict []]"
  let ?h2 = "put ?h1 n key (VRef (length h))"
  from True have eq: "ensure_object needed key n h = ?h2"
    by (auto simp: ensure_object_def)
  from assms have n: "n < length h" by (simp add: good_def)
  have g1: "good P h0 n ?h1" using assms by (rule good_alloc)
  have "good P h0 n ?h2 \<and> length ?h2 = length ?h1 \<and> take n ?h2 = take n ?h1"
    using g1 n by (intro good_put) simp_all
  with n show ?thesis unfolding eq by simp
qed

lemma good_phone_to_string:
  assumes ext: "\<And>b. P (VRef b) \<Longrightarrow> b < length h0 \<and> dict_at h0 (VRef b) = None"
    and str: "\<And>ph. ph \<noteq> VNull \<Longrightarrow> \<not> is_str ph \<Longrightarrow> P (VStr (py_str bi h ph))"
    and good: "good P h0 n h"
  shows "good P h0 n (phone_to_string bi n h)
           \<and> length (phone_to_string bi n h) = length h
           \<and> take n (phone_to_string bi n h) = take n h"
proof (cases "\<exists>kvs c cc ph. dict_at h (VRef n) = Some kvs
      \<and> map_of kvs (lit ''customer_contact'') = Some (VRef c) \<and> dict_at h (VRef c) = Some cc
      \<and> map_of cc (lit ''phone'') = Some ph \<and> ph \<noteq> VNull \<and> \<not> is_str ph")
  case False
  then have "phone_to_string bi n h = h"
    by (auto simp: phone_to_string_def split: option.splits val.splits)
  with good show ?thesis by simp
next
  case True
  then obtain kvs c cc ph where c: "dict_at h (VRef n) = Some kvs"
      "map_of kvs (lit ''customer_contact'') = Some (VRef c)" "dict_at h (VRef c) = Some cc"
      "map_of cc (lit ''phone'') = Some ph" "ph \<noteq> VNull" "\<not> is_str ph"
    by blast
  then have eq: "phone_to_string bi n h = put h c (lit ''phone'') (VStr (py_str bi h ph))"
    by (simp add: phone_to_string_def)
  from good have n: "n < length h" by (simp add: good_def)
  from internal_ref [OF good ext _ n c(1,2,3)] have "n < c \<and> c < length h" by simp
  then have inside: "n \<le> c" "c < length h" by simp_all
  from str [OF c(5,6)]
  have "P (VStr (py_str bi h ph))
          \<or> (\<exists>b. VStr (py_str bi h ph) = VRef b \<and> c < b \<and> b < length h)"
    by simp
  from good_put [OF good inside this] show ?thesis
    unfolding eq .
qed

lemma phone_to_string_done:
  assumes ext: "\<And>b. P (VRef b) \<Longrightarrow> b < length h0 \<and> dict_at h0 (VRef b) = None"
    and null: "\<not> P VNull"
    and good: "good P h0 n h"
  shows "phone_done n (phone_to_string bi n h)"
proof (cases "\<exists>kvs c cc ph. dict_at h (VRef n) = Some kvs
      \<and> map_of kvs (lit ''customer_contact'') = Some (VRef c) \<and> dict_at h (VRef c) = Some cc
      \<and> map_of cc (lit ''phone'') = Some ph")
  case False
  then have "phone_to_string bi n h = h"
    by (auto simp: phone_to_string_def split: option.splits val.splits)
  moreover from False have "phone_done n h"
    by (auto simp: phone_done_def dict_at_def split: option.splits val.splits)
  ultimately show ?thesis by simp
next
  case True
  then obtain kvs c cc ph where c: "dict_at h (VRef n) = Some kvs"
      "map_of kvs (lit ''customer_contact'') = Some (VRef c)" "dict_at h (VRef c) = Some cc"
      "map_of cc (lit ''phone'') = Some ph"
    by blast
  from good have n: "n < length h" by (simp add: good_def)
  from internal_ref [OF good ext _ n c(1,2,3)] have inside: "n < c" "c < length h" by simp_all
  show ?thesis
  proof (cases "ph \<noteq> VNull \<and> \<not> is_str ph")
    case True
    let ?s = "VStr (py_str bi h ph)"
    let ?h = "h[c := ODict (AList.update (lit ''phone'') ?s cc)]"
    from c(3) inside(2) have "h ! c = ODict cc"
      by (auto simp: dict_at_def obj_at_def split: obj.splits)
    with c True inside(2) have eq: "phone_to_string bi n h = ?h"
      by (simp add: phone_to_string_def put_def obj_at_def)
    have "dict_at ?h (VRef n) = Some kvs"
      using c(1) inside n by (simp add: dict_at_def obj_at_def)
    moreover have "dict_at ?h (VRef c) = Some (AList.update (lit ''phone'') ?s cc)"
      using inside(2) by (simp add: dict_at_def obj_at_def)
    moreover have "map_of (AList.update (lit ''phone'') ?s cc) (lit ''phone'') = Some ?s"
      by (simp add: update_conv')
    ultimately show ?thesis
      unfolding eq using c(2) by (simp add: phone_done_def)
  next
    case False
    with c have eq: "phone_to_string bi n h = h"
      by (auto simp: phone_to_string_def)
    have "ph \<noteq> VNull"
    proof
      assume "ph = VNull"
      from good_obj [OF good _ inside(2)] inside(1) c(3)
      have "\<forall>v\<in>set (map snd cc). (\<exists>b. v = VRef b \<and> c < b \<and> b < length h) \<or> P v"
        by auto
      moreover from c(4) have "ph \<in> set (map snd cc)"
        by (force dest: map_of_SomeD)
      ultimately show False
        using \<open>ph = VNull\<close> null by auto
    qed
    with False have "is_str ph" by simp
    with c show ?thesis
      unfolding eq by (simp add: phone_done_def)
  qed
qed

lemma good_build_canonical:
  assumes ext: "\<And>b. P (VRef b) \<Longrightarrow> b < length h0 \<and> dict_at h0 (VRef b) = None"
    and str: "\<And>h ph. ph \<noteq> VNull \<Longrightarrow> \<not> is_str ph \<Longrightarrow> P (VStr (py_str bi h ph))"
    and null: "\<not> P VNull"
    and closed: "closed h0" and r: "val_in h0 r"
    and res: "\<forall>e\<in>set field_list. is_mapped e \<longrightarrow>
            (\<forall>w. get_nested_value_at h0 r (partner_field e) = Inr w \<longrightarrow> w \<noteq> VNull
                  \<longrightarrow> w \<noteq> VStr [] \<longrightarrow> P (coerce bi w))"
    and pre: "take (length h0) h = h0"
    and run: "build_canonical bi field_list r h = Inr (c, h1)"
  shows "c = VRef (length h) \<and> good P h0 (length h) h1 \<and> take (length h) h1 = h
           \<and> phone_done (length h) h1"
proof -
  let ?n = "length h"
  let ?a = "h @ [ODict []]"
  from run obtain hb where hb: "apply_fields bi r field_list ?n ?a = Inr hb"
    by (auto simp: build_canonical_def Let_def split: sum.splits)
  let ?hc = "ensure_object (needs_prefix (lit ''destination.'') field_list)
               (lit ''destination'') ?n hb"
  let ?hd = "ensure_object (needs_prefix (lit ''origin.'') field_list) (lit ''origin'') ?n ?hc"
  from run hb have c: "c = VRef ?n" and h1: "h1 = phone_to_string bi ?n ?hd"
    by (simp_all add: build_canonical_def Let_def)
  have "length (take (length h0) h) = length h0" using pre by simp
  then have le: "length h0 \<le> ?n" by simp
  have "built P ?n (length ?a) ?a"
    by (auto simp: built_def nth_append)
  with le pre have ga: "good P h0 ?n ?a"
    by (simp add: good_def)
  from good_apply_fields [OF ext closed r ga res hb]
  have gb: "good P h0 ?n hb" and tb: "take ?n hb = h" by simp_all
  from good_ensure_object [OF gb]
  have gc: "good P h0 ?n ?hc" and tc: "take ?n ?hc = h" using tb by simp_all
  from good_ensure_object [OF gc]
  have gd: "good P h0 ?n ?hd" and td: "take ?n ?hd = h" using tc by simp_all
  from good_phone_to_string [OF ext str gd]
  have "good P h0 ?n h1" "take ?n h1 = h" unfolding h1 using td by simp_all
  moreover from phone_to_string_done [OF ext null gd] have "phone_done ?n h1"
    unfolding h1 .
  ultimately show ?thesis using c by simp
qed

lemma region_dict_at:
  assumes built: "built P n m h" and same: "take m h' = take m h"
    and ext: "\<And>b. P (VRef b) \<Longrightarrow> b < n"
    and a: "n \<le> a" "a < m"
  shows "dict_at h' (VRef a) = dict_at h (VRef a)"
    and "dict_at h (VRef a) = Some kvs \<Longrightarrow> map_of kvs k = Some v \<Longrightarrow> dict_at h' v = dict_at h v"
proof -
  from same a(2) have "obj_at h' a = obj_at h a" by (rule obj_at_take)
  then show "dict_at h' (VRef a) = dict_at h (VRef a)"
    by (simp add: dict_at_def)
next
  assume kvs: "dict_at h (VRef a) = Some kvs" "map_of kvs k = Some v"
  from built a obtain kvs' where "h ! a = ODict kvs'"
      "\<forall>v\<in>set (map snd kvs'). (\<exists>b. v = VRef b \<and> a < b \<and> b < m) \<or> P v" "m \<le> length h"
    unfolding built_def by blast
  with kvs(1) a(2) have entries: "\<forall>v\<in>set (map snd kvs). (\<exists>b. v = VRef b \<and> a < b \<and> b < m) \<or> P v"
    by (auto simp: dict_at_def obj_at_def split: if_splits)
  from kvs(2) have "v \<in> set (map snd kvs)"
    by (force dest: map_of_SomeD)
  with entries have v: "(\<exists>b. v = VRef b \<and> a < b \<and> b < m) \<or> P v" by blast
  show "dict_at h' v = dict_at h v"
  proof (cases v)
    case (VRef b)
    with v ext a have "b < m" by fastforce
    with same have "obj_at h' b = obj_at h b" by (rule obj_at_take)
    with VRef show ?thesis by (simp add: dict_at_def)
  qed (simp_all add: dict_at_def)
qed

lemma phone_done_take:
  assumes built: "built P n m h" and same: "take m h' = take m h"
    and ext: "\<And>b. P (VRef b) \<Longrightarrow> b < n"
    and n: "n < m" and fin: "phone_done n h"
  shows "phone_done n h'"
proof -
  have top: "dict_at h' (VRef n) = dict_at h (VRef n)"
    using region_dict_at(1) [OF built same ext _ n] by simp
  show ?thesis
  proof (cases "dict_at h (VRef n)")
    case None
    with top show ?thesis by (simp add: phone_done_def)
  next
    case (Some canon)
    show ?thesis
    proof (cases "map_of canon (lit ''customer_contact'')")
      case None
      with Some top show ?thesis by (simp add: phone_done_def)
    next
      case (Some ccv)
      have "dict_at h' ccv = dict_at h ccv"
        using region_dict_at(2) [OF built same ext _ n \<open>dict_at h (VRef n) = Some canon\<close> Some]
        by simp
      with Some \<open>dict_at h (VRef n) = Some canon\<close> top fin show ?thesis
        by (simp add: phone_done_def)
    qed
  qed
qed

lemma apply_mappings_regions:
  assumes ext: "\<And>b. P (VRef b) \<Longrightarrow> b < length h0 \<and> dict_at h0 (VRef b) = None"
    and str: "\<And>h ph. ph \<noteq> VNull \<Longrightarrow> \<not> is_str ph \<Longrightarrow> P (VStr (py_str bi h ph))"
    and null: "\<not> P VNull"
    and closed: "closed h0"
  shows "\<forall>r\<in>set records. val_in h0 r \<Longrightarrow>
         \<forall>r\<in>set records. \<forall>e\<in>set field_list. is_mapped e \<longrightarrow>
            (\<forall>w. get_nested_value_at h0 r (partner_field e) = Inr w \<longrightarrow> w \<noteq> VNull
                  \<longrightarrow> w \<noteq> VStr [] \<longrightarrow> P (coerce bi w)) \<Longrightarrow>
         take (length h0) h = h0 \<Longrightarrow>
         apply_mappings bi records field_list h = Inr (cs, hF) \<Longrightarrow>
         take (length h) hF = h
         \<and> (\<forall>c\<in>set cs. \<exists>n m. c = VRef n \<and> length h0 \<le> n \<and> n < m \<and> built P n m hF
                \<and> phone_done n hF)"
proof (induction records arbitrary: h cs hF)
  case Nil
  then show ?case by simp
next
  case (Cons r records)
  from Cons.prems(4) obtain c h1 cs' where
      one: "build_canonical bi field_list r h = Inr (c, h1)"
      and rest: "apply_mappings bi records field_list h1 = Inr (cs', hF)"
      and cs: "cs = c # cs'"
    by (auto split: sum.splits prod.splits)
  from Cons.prems(1) have r: "val_in h0 r" and rs: "\<forall>r\<in>set records. val_in h0 r"
    by simp_all
  from Cons.prems(2) have res: "\<forall>e\<in>set field_list. is_mapped e \<longrightarrow>
            (\<forall>w. get_nested_value_at h0 r (partner_field e) = Inr w \<longrightarrow> w \<noteq> VNull
                  \<longrightarrow> w \<noteq> VStr [] \<longrightarrow> P (coerce bi w))"
    and ress: "\<forall>r\<in>set records. \<forall>e\<in>set field_list. is_mapped e \<longrightarrow>
            (\<forall>w. get_nested_value_at h0 r (partner_field e) = Inr w \<longrightarrow> w \<noteq> VNull
                  \<longrightarrow> w \<noteq> VStr [] \<longrightarrow> P (coerce bi w))"
    by simp_all
  from good_build_canonical [OF ext str null closed r res Cons.prems(3) one]
  have c: "c = VRef (length h)" and g: "good P h0 (length h) h1"
    and t: "take (length h) h1 = h" and d: "phone_done (length h) h1"
    by simp_all
  from g have pre1: "take (length h0) h1 = h0" and le: "length h0 \<le> length h"
    and lt: "length h < length h1" and b: "built P (length h) (length h1) h1"
    by (simp_all add: good_def)
  from Cons.IH [OF rs ress pre1 rest]
  have tF: "take (length h1) hF = h1"
    and regions: "\<forall>c\<in>set cs'. \<exists>n m. c = VRef n \<and> length h0 \<le> n \<and> n < m \<and> built P n m hF
                \<and> phone_done n hF"
    by simp_all
  have same: "take (length h1) hF = take (length h1) h1" using tF by simp
  have ext': "\<And>b. P (VRef b) \<Longrightarrow> b < length h" using ext le by fastforce
  have "take (length h) hF = take (length h) (take (length h1) hF)"
    using lt by (simp add: min_def)
  with tF t have first: "take (length h) hF = h" by simp
  have "built P (length h) (length h1) hF"
    using b same by (rule built_take)
  moreover have "phone_done (length h) hF"
    using b same ext' lt d by (rule phone_done_take)
  ultimately have "\<exists>n m. c = VRef n \<and> length h0 \<le> n \<and> n < m \<and> built P n m hF \<and> phone_done n hF"
    using c le lt by blast
  with regions first cs show ?case by simp
qed

lemma fetch_numeral:
  "fetch (numeral k) h (VRef a) =
     (case obj_at h a of
        None \<Rightarrow> None
      | Some (ODict kvs) \<Rightarrow>
          map_option JDict
            (those (map (\<lambda>kv. map_option (Pair (fst kv)) (fetch (pred_numeral k) h (snd kv))) kvs))
      | Some (OList xs) \<Rightarrow> map_option JList (those (map (fetch (pred_numeral k) h) xs)))"
  by (simp add: numeral_eq_Suc)

lemmas builder_eval =
  build_canonical_def get_nested_value_at_def coerce_def obj_at_def dict_at_def
  put_def sub_dict_def lit_def needs_prefix_def ensure_object_def phone_to_string_def
  py_str_def sample_builtins_def strip_def is_space_def is_mapped_def fetch_numeral
  replace_char_def


subsection \<open>The phone number\<close>





subsection \<open>Empty values\<close>

lemma digits_of_nonempty: "digits_of n acc \<noteq> []"
  by (induction n acc rule: digits_of.induct) (subst digits_of.simps, simp)

lemma py_str_nonempty:
  assumes "\<forall>h v. str_of_other bi h v \<noteq> []" "\<not> is_str ph"
  shows "py_str bi h ph \<noteq> []"
  using assms digits_of_nonempty
  by (cases ph) (auto simp: py_str_def lit_def str_int_def str_nat_def)

lemma filled_coerce:
  assumes "plain_value w" "w \<noteq> VNull" "w \<noteq> VStr []"
  shows "filled (coerce bi w)"
  using assms by (cases w) (auto simp: coerce_def Let_def split: option.splits)

lemma fetch_filled:
  assumes "filled v"
  shows "\<exists>j. fetch d h v = Some j \<and> no_empty_leaf j"
  using assms by (cases v) simp_all

lemma fetch_entries:
  assumes "\<forall>v\<in>set (map snd kvs). \<exists>j. f v = Some j \<and> no_empty_leaf j"
  shows "\<exists>js. those (map (\<lambda>kv. map_option (Pair (fst kv)) (f (snd kv))) kvs) = Some js
           \<and> no_empty_leaf_items js"
  using assms
proof (induction kvs)
  case Nil
  then show ?case by simp
next
  case (Cons kv kvs)
  from Cons.prems obtain j where j: "f (snd kv) = Some j" "no_empty_leaf j"
    by auto
  from Cons.prems have "\<forall>v\<in>set (map snd kvs). \<exists>j. f v = Some j \<and> no_empty_leaf j"
    by simp
  from Cons.IH [OF this] obtain js where
    js: "those (map (\<lambda>kv. map_option (Pair (fst kv)) (f (snd kv))) kvs) = Some js"
      "no_empty_leaf_items js"
    by blast
  from j js show ?case by simp
qed

lemma region_fetch:
  assumes built: "built filled n m h"
  shows "n \<le> a \<Longrightarrow> a < m \<Longrightarrow> m - a \<le> d \<Longrightarrow>
         \<exists>j. fetch d h (VRef a) = Some j \<and> no_empty_leaf j"
proof (induction "m - a" arbitrary: a d rule: less_induct)
  case less
  from less.prems obtain d' where d: "d = Suc d'" "m - Suc a \<le> d'"
    by (cases d) auto
  from built less.prems(1,2) obtain kvs where kvs: "h ! a = ODict kvs"
      "\<forall>v\<in>set (map snd kvs). (\<exists>b. v = VRef b \<and> a < b \<and> b < m) \<or> filled v"
    and m: "m \<le> length h"
    unfolding built_def by blast
  have "\<forall>v\<in>set (map snd kvs). \<exists>j. fetch d' h v = Some j \<and> no_empty_leaf j"
  proof
    fix v assume "v \<in> set (map snd kvs)"
    with kvs(2) have "(\<exists>b. v = VRef b \<and> a < b \<and> b < m) \<or> filled v" by blast
    then show "\<exists>j. fetch d' h v = Some j \<and> no_empty_leaf j"
    proof
      assume "\<exists>b. v = VRef b \<and> a < b \<and> b < m"
      then obtain b where b: "v = VRef b" "a < b" "b < m" by blast
      have "\<exists>j. fetch d' h (VRef b) = Some j \<and> no_empty_leaf j"
      proof (rule less.hyps)
        show "m - b < m - a" using b less.prems(2) by simp
        show "n \<le> b" using b less.prems(1) by simp
        show "b < m" by (rule b(3))
        show "m - b \<le> d'" using d(2) b by simp
      qed
      with b(1) show ?thesis by simp
    next
      assume "filled v"
      then show ?thesis by (rule fetch_filled)
    qed
  qed
  from fetch_entries [where f = "fetch d' h", OF this] obtain js where
    "those (map (\<lambda>kv. map_option (Pair (fst kv)) (fetch d' h (snd kv))) kvs) = Some js"
    "no_empty_leaf_items js"
    by blast
  moreover have "obj_at h a = Some (ODict kvs)"
    using kvs(1) m less.prems(2) by (simp add: obj_at_def)
  ultimately show ?case
    unfolding d(1) by simp
qed

text \<open>
  C3, amended. An entry whose resolved value is \<open>None\<close> or the empty string leaves the
  store, and so the canonical object, as it was. And take a closed store \<open>h0\<close> with records
  in it such that, for every record and every entry with a canonical path, the resolved
  value is a scalar and, if a string, not one of white space only. Then every canonical
  object that \<open>apply_mappings\<close> returns can be read back from the store at the end as a JSON
  value, and that value has an empty string nowhere (given that \<open>str\<close> of a float is never
  the empty string). Entries without a canonical path may resolve to anything.
\<close>

theorem no_empty_placeholders:
  "(get_nested_value_at h r (partner_field f) = Inr v \<and> (v = VNull \<or> v = VStr [])
      \<longrightarrow> apply_fields bi r (f # fs) canon h = apply_fields bi r fs canon h)
   \<and> (apply_mappings bi records field_list h0 = Inr (canonical_list, h')
        \<and> closed h0 \<and> (\<forall>x\<in>set records. val_in h0 x)
        \<and> (\<forall>x\<in>set records. \<forall>e\<in>set field_list. is_mapped e \<longrightarrow>
              (\<forall>w. get_nested_value_at h0 x (partner_field e) = Inr w \<longrightarrow> plain_value w))
        \<and> (\<forall>h w. str_of_other bi h w \<noteq> [])
      \<longrightarrow> (\<forall>c\<in>set canonical_list. \<exists>j. fetch (length h') h' c = Some j \<and> no_empty_leaf j))"
proof (intro conjI impI ballI)
  assume "get_nested_value_at h r (partner_field f) = Inr v \<and> (v = VNull \<or> v = VStr [])"
  then show "apply_fields bi r (f # fs) canon h = apply_fields bi r fs canon h"
    by (auto split: option.splits)
next
  fix c
  assume a: "apply_mappings bi records field_list h0 = Inr (canonical_list, h')
        \<and> closed h0 \<and> (\<forall>x\<in>set records. val_in h0 x)
        \<and> (\<forall>x\<in>set records. \<forall>e\<in>set field_list. is_mapped e \<longrightarrow>
              (\<forall>w. get_nested_value_at h0 x (partner_field e) = Inr w \<longrightarrow> plain_value w))
        \<and> (\<forall>h w. str_of_other bi h w \<noteq> [])"
    and c: "c \<in> set canonical_list"
  have ext: "\<And>b. filled (VRef b :: 'a val) \<Longrightarrow> b < length h0 \<and> dict_at h0 (VRef b) = None"
    by simp
  have str: "\<And>h ph. ph \<noteq> VNull \<Longrightarrow> \<not> is_str ph \<Longrightarrow> filled (VStr (py_str bi h ph))"
    using a py_str_nonempty [of bi] by simp
  have null: "\<not> filled (VNull :: 'a val)" by simp
  from a have closed: "closed h0" and recs: "\<forall>x\<in>set records. val_in h0 x"
    and run: "apply_mappings bi records field_list h0 = Inr (canonical_list, h')"
    by simp_all
  from a have res: "\<forall>x\<in>set records. \<forall>e\<in>set field_list. is_mapped e \<longrightarrow>
            (\<forall>w. get_nested_value_at h0 x (partner_field e) = Inr w \<longrightarrow> w \<noteq> VNull
                  \<longrightarrow> w \<noteq> VStr [] \<longrightarrow> filled (coerce bi w))"
    using filled_coerce [of _ bi] by blast
  have "take (length h0) h0 = h0" by simp
  from apply_mappings_regions [where P = filled, OF ext str null closed recs res this run] c
  obtain n m where nm: "c = VRef n" "n < m" "built filled n m h'"
    by blast
  from nm(3) have "m \<le> length h'" by (simp add: built_def)
  then have "m - n \<le> length h'" by simp
  from region_fetch [OF nm(3) _ nm(2) this] nm(1)
  show "\<exists>j. fetch (length h') h' c = Some j \<and> no_empty_leaf j" by simp
qed

theorem no_empty_placeholders_witness:
  "apply_mappings sample_builtins [VRef 1]
     [\<lparr>partner_field = Some (lit ''name''), mapped_to = Some (lit ''customer.name'')\<rparr>,
      \<lparr>partner_field = Some (lit ''note''), mapped_to = Some (lit ''customer.note'')\<rparr>,
      \<lparr>partner_field = Some (lit ''extra''), mapped_to = None\<rparr>]
     [ODict [(lit ''k'', VStr [])],
      ODict [(lit ''name'', VStr (lit ''Ann'')), (lit ''note'', VStr []),
             (lit ''extra'', VRef 0)]]
   = Inr ([VRef 2],
          [ODict [(lit ''k'', VStr [])],
           ODict [(lit ''name'', VStr (lit ''Ann'')), (lit ''note'', VStr []),
                  (lit ''extra'', VRef 0)],
           ODict [(lit ''customer'', VRef 3)],
           ODict [(lit ''name'', VStr (lit ''Ann''))]])
   \<and> closed [ODict [(lit ''k'', VStr [])],
              ODict [(lit ''name'', VStr (lit ''Ann'')), (lit ''note'', VStr []),
                     (lit ''extra'', VRef 0 :: (int \<times> int) val)]]
   \<and> get_nested_value_at
        [ODict [(lit ''k'', VStr [])],
         ODict [(lit ''name'', VStr (lit ''Ann'')), (lit ''note'', VStr []),
                (lit ''extra'', VRef 0 :: (int \<times> int) val)]]
        (VRef 1) (Some (lit ''extra'')) = Inr (VRef 0)
   \<and> apply_fields sample_builtins (VRef 1)
        [\<lparr>partner_field = Some (lit ''note''), mapped_to = Some (lit ''customer.note'')\<rparr>] 2
        [ODict [(lit ''k'', VStr [])],
         ODict [(lit ''name'', VStr (lit ''Ann'')), (lit ''note'', VStr []),
                (lit ''extra'', VRef 0)],
         ODict []]
     = Inr [ODict [(lit ''k'', VStr [])],
            ODict [(lit ''name'', VStr (lit ''Ann'')), (lit ''note'', VStr []),
                   (lit ''extra'', VRef 0)],
            ODict []]
   \<and> fetch 4
        [ODict [(lit ''k'', VStr [])],
         ODict [(lit ''name'', VStr (lit ''Ann'')), (lit ''note'', VStr []),
                (lit ''extra'', VRef 0)],
         ODict [(lit ''customer'', VRef 3)],
         ODict [(lit ''name'', VStr (lit ''Ann'') :: (int \<times> int) val)]] (VRef 2)
     = Some (JDict [(lit ''customer'', JDict [(lit ''name'', JStr (lit ''Ann''))])])
   \<and> no_empty_leaf (JDict [(lit ''customer'', JDict [(lit ''name'', JStr (lit ''Ann'')
        :: (int \<times> int) json)])])"
proof -
  let ?rec = "ODict [(lit ''name'', VStr (lit ''Ann'')), (lit ''note'', VStr []),
                     (lit ''extra'', VRef 0 :: (int \<times> int) val)]"
  let ?h0 = "[ODict [(lit ''k'', VStr [])], ?rec]"
  let ?note = "\<lparr>partner_field = Some (lit ''note''), mapped_to = Some (lit ''customer.note'')\<rparr>"
  let ?fields = "[\<lparr>partner_field = Some (lit ''name''), mapped_to = Some (lit ''customer.name'')\<rparr>,
      ?note, \<lparr>partner_field = Some (lit ''extra''), mapped_to = None\<rparr>]"
  let ?h' = "[ODict [(lit ''k'', VStr [])], ?rec, ODict [(lit ''customer'', VRef 3)],
              ODict [(lit ''name'', VStr (lit ''Ann''))]]"
  let ?out = "JDict [(lit ''customer'', JDict [(lit ''name'', JStr (lit ''Ann''))])]
              :: (int \<times> int) json"
  have run: "apply_mappings sample_builtins [VRef 1] ?fields ?h0 = Inr ([VRef 2], ?h')"
    by (simp add: builder_eval)
  have closed: "closed ?h0"
    by (simp add: closed_def val_in_def)
  have recs: "\<forall>x\<in>set [VRef 1 :: (int \<times> int) val]. val_in ?h0 x"
    by (simp add: val_in_def)
  have plain: "\<forall>x\<in>set [VRef 1]. \<forall>e\<in>set ?fields. is_mapped e \<longrightarrow>
              (\<forall>w. get_nested_value_at ?h0 x (partner_field e) = Inr w \<longrightarrow> plain_value w)"
    by (auto simp: builder_eval)
  have str: "\<forall>h w. str_of_other sample_builtins h w \<noteq> []"
    by (simp add: sample_builtins_def lit_def)
  have extra: "get_nested_value_at ?h0 (VRef 1) (Some (lit ''extra'')) = Inr (VRef 0)"
    by (simp add: builder_eval)
  have blank: "get_nested_value_at (?h0 @ [ODict []]) (VRef 1) (partner_field ?note) = Inr (VStr [])"
    by (simp add: builder_eval)
  from no_empty_placeholders [where bi = sample_builtins and r = "VRef 1" and f = ?note
      and fs = "[]" and canon = 2 and h = "?h0 @ [ODict []]" and v = "VStr []", THEN conjunct1] blank
  have skipped: "apply_fields sample_builtins (VRef 1) [?note] 2 (?h0 @ [ODict []])
      = Inr (?h0 @ [ODict []])"
    by simp
  from no_empty_placeholders [where bi = sample_builtins and records = "[VRef 1]"
      and field_list = ?fields and ?h0.0 = ?h0 and canonical_list = "[VRef 2]" and h' = ?h',
      THEN conjunct2] run closed recs plain str
  have "\<forall>c\<in>set [VRef 2]. \<exists>j. fetch (length ?h') ?h' c = Some j \<and> no_empty_leaf j"
    by blast
  then have "\<exists>j. fetch (length ?h') ?h' (VRef 2) = Some j \<and> no_empty_leaf j"
    by (rule bspec) simp
  moreover have "length ?h' = 4"
    by simp
  ultimately have "\<exists>j. fetch 4 ?h' (VRef 2) = Some j \<and> no_empty_leaf j"
    by (simp only:)
  moreover have "fetch 4 ?h' (VRef 2) = Some ?out"
    by (simp add: fetch_numeral obj_at_def)
  ultimately have "no_empty_leaf ?out" by simp
  with run closed extra skipped \<open>fetch 4 ?h' (VRef 2) = Some ?out\<close> show ?thesis
    by simp
qed

text \<open>
  C3 as stated fails. A resolved value that is a dict is stored as it is, with the empty
  strings it holds. And the test for an empty value comes before the value is stripped:
  a value of one space passes it, is stripped to the empty string, is neither digits nor a
  float, and is stored.
\<close>

theorem empty_leaf_counterexample:
  "apply_mappings sample_builtins [VRef 1]
     [\<lparr>partner_field = Some (lit ''addr''), mapped_to = Some (lit ''destination.address'')\<rparr>]
     [ODict [(lit ''line2'', VStr [])], ODict [(lit ''addr'', VRef 0)]]
   = Inr ([VRef 2],
          [ODict [(lit ''line2'', VStr [])], ODict [(lit ''addr'', VRef 0)],
           ODict [(lit ''destination'', VRef 3)], ODict [(lit ''address'', VRef 0)]])
   \<and> fetch 4 [ODict [(lit ''line2'', VStr [])], ODict [(lit ''addr'', VRef 0)],
               ODict [(lit ''destination'', VRef 3)],
               ODict [(lit ''address'', VRef 0 :: (int \<times> int) val)]] (VRef 2)
     = Some (JDict [(lit ''destination'',
                     JDict [(lit ''address'', JDict [(lit ''line2'', JStr [])])])])
   \<and> apply_mappings sample_builtins [VRef 0]
     [\<lparr>partner_field = Some (lit ''name''), mapped_to = Some (lit ''customer_name'')\<rparr>]
     [ODict [(lit ''name'', VStr (lit '' ''))]]
   = Inr ([VRef 1],
          [ODict [(lit ''name'', VStr (lit '' ''))], ODict [(lit ''customer_name'', VStr [])]])
   \<and> fetch 2 [ODict [(lit ''name'', VStr (lit '' ''))],
               ODict [(lit ''customer_name'', VStr [] :: (int \<times> int) val)]] (VRef 1)
     = Some (JDict [(lit ''customer_name'', JStr [])])"
  by (simp add: builder_eval)

section \<open>Schema validator: properties\<close>

lemma validate_loop_results:
  assumes "\<forall>obj\<in>set objs. js_validate obj schema \<noteq> Raises"
  shows "\<exists>new. validate_loop js_validate schema objs i results valid_count
              = Inr (results @ new, valid_count + length (filter valid new))
           \<and> length new = length objs
           \<and> (\<forall>k<length objs.
                 index (new ! k) = i + k \<and> object (new ! k) = objs ! k
                 \<and> (js_validate (objs ! k) schema = Conforms
                      \<longrightarrow> valid (new ! k) \<and> errors (new ! k) = None)
                 \<and> (\<forall>m. js_validate (objs ! k) schema = Violates m
                      \<longrightarrow> \<not> valid (new ! k) \<and> errors (new ! k) = Some m))"
  using assms
proof (induction objs arbitrary: i results valid_count)
  case Nil
  then show ?case by simp
next
  case (Cons obj objs)
  from Cons.prems have rest: "\<forall>obj\<in>set objs. js_validate obj schema \<noteq> Raises"
    and this_one: "js_validate obj schema \<noteq> Raises"
    by simp_all
  define r where "r = (case js_validate obj schema of
      Conforms \<Rightarrow> \<lparr>index = i, valid = True, errors = None, object = obj\<rparr>
    | Violates m \<Rightarrow> \<lparr>index = i, valid = False, errors = Some m, object = obj\<rparr>
    | Raises \<Rightarrow> \<lparr>index = i, valid = False, errors = None, object = obj\<rparr>)"
  define vc where "vc = (if valid r then valid_count + 1 else valid_count)"
  have step: "validate_loop js_validate schema (obj # objs) i results valid_count
                = validate_loop js_validate schema objs (Suc i) (results @ [r]) vc"
    using this_one by (cases "js_validate obj schema") (simp_all add: r_def vc_def)
  from Cons.IH [OF rest, of "Suc i" "results @ [r]" vc]
  obtain new where new:
    "validate_loop js_validate schema objs (Suc i) (results @ [r]) vc
       = Inr ((results @ [r]) @ new, vc + length (filter valid new))"
    "length new = length objs"
    "\<forall>k<length objs.
        index (new ! k) = Suc i + k \<and> object (new ! k) = objs ! k
        \<and> (js_validate (objs ! k) schema = Conforms
             \<longrightarrow> valid (new ! k) \<and> errors (new ! k) = None)
        \<and> (\<forall>m. js_validate (objs ! k) schema = Violates m
             \<longrightarrow> \<not> valid (new ! k) \<and> errors (new ! k) = Some m)"
    by blast
  have head: "index r = i" "object r = obj"
    "js_validate obj schema = Conforms \<longrightarrow> valid r \<and> errors r = None"
    "\<forall>m. js_validate obj schema = Violates m \<longrightarrow> \<not> valid r \<and> errors r = Some m"
    by (auto simp: r_def split: validation.splits)
  have "validate_loop js_validate schema (obj # objs) i results valid_count
          = Inr (results @ (r # new), valid_count + length (filter valid (r # new)))"
    using step new(1) by (simp add: vc_def)
  moreover have "length (r # new) = length (obj # objs)"
    using new(2) by simp
  moreover have "\<forall>k<length (obj # objs).
        index ((r # new) ! k) = i + k \<and> object ((r # new) ! k) = (obj # objs) ! k
        \<and> (js_validate ((obj # objs) ! k) schema = Conforms
             \<longrightarrow> valid ((r # new) ! k) \<and> errors ((r # new) ! k) = None)
        \<and> (\<forall>m. js_validate ((obj # objs) ! k) schema = Violates m
             \<longrightarrow> \<not> valid ((r # new) ! k) \<and> errors ((r # new) ! k) = Some m)"
  proof (intro allI impI)
    fix k
    assume "k < length (obj # objs)"
    then show "index ((r # new) ! k) = i + k \<and> object ((r # new) ! k) = (obj # objs) ! k
        \<and> (js_validate ((obj # objs) ! k) schema = Conforms
             \<longrightarrow> valid ((r # new) ! k) \<and> errors ((r # new) ! k) = None)
        \<and> (\<forall>m. js_validate ((obj # objs) ! k) schema = Violates m
             \<longrightarrow> \<not> valid ((r # new) ! k) \<and> errors ((r # new) ! k) = Some m)"
    proof (cases k)
      case 0
      with head show ?thesis by simp
    next
      case (Suc k')
      with \<open>k < length (obj # objs)\<close> have "k' < length objs" by simp
      with new(3) Suc show ?thesis by simp
    qed
  qed
  ultimately show ?case by blast
qed

lemma validate_loop_raises:
  assumes "objs = before @ obj # after"
    and "\<forall>x\<in>set before. js_validate x schema \<noteq> Raises"
    and "js_validate obj schema = Raises"
  shows "validate_loop js_validate schema objs i results valid_count = Inl OtherError"
  using assms
proof (induction before arbitrary: objs i results valid_count)
  case Nil
  then show ?case by simp
next
  case (Cons o1 before)
  from Cons.prems(2) have "js_validate o1 schema \<noteq> Raises"
    and rest: "\<forall>x\<in>set before. js_validate x schema \<noteq> Raises"
    by simp_all
  then show ?case
    using Cons.IH [OF refl rest Cons.prems(3)] Cons.prems(1)
    by (cases "js_validate o1 schema") simp_all
qed

text \<open>
  C9, amended. \<open>validate_list\<close> raises \<open>RuntimeError\<close> at once when the schema cannot
  be loaded. With a schema loaded and a validator that raises nothing but
  \<open>ValidationError\<close>, it returns one result for each object, in order, with the index
  and the object, \<open>valid\<close> and no error for an object that conforms, not \<open>valid\<close> and
  the message for one that does not, and the number of valid results. An exception of
  another kind from the validator ends the call with that exception.
\<close>

theorem validate_list_results:
  "(load_schema lib fs schema_file = None
      \<longrightarrow> validate_list lib js_validate fs objs schema_file = Inl RuntimeError)
   \<and> (load_schema lib fs schema_file = Some schema
        \<and> (\<forall>obj\<in>set objs. js_validate obj schema \<noteq> Raises)
      \<longrightarrow> (\<exists>results.
             validate_list lib js_validate fs objs schema_file
               = Inr (results, length (filter valid results))
             \<and> length results = length objs
             \<and> (\<forall>k<length objs.
                   index (results ! k) = k \<and> object (results ! k) = objs ! k
                   \<and> (js_validate (objs ! k) schema = Conforms
                        \<longrightarrow> valid (results ! k) \<and> errors (results ! k) = None)
                   \<and> (\<forall>m. js_validate (objs ! k) schema = Violates m
                        \<longrightarrow> \<not> valid (results ! k) \<and> errors (results ! k) = Some m))))
   \<and> (load_schema lib fs schema_file = Some schema
        \<and> objs = before @ obj # after
        \<and> (\<forall>x\<in>set before. js_validate x schema \<noteq> Raises)
        \<and> js_validate obj schema = Raises
      \<longrightarrow> validate_list lib js_validate fs objs schema_file = Inl OtherError)"
proof (intro conjI impI)
  assume "load_schema lib fs schema_file = None"
  then show "validate_list lib js_validate fs objs schema_file = Inl RuntimeError"
    by (simp add: validate_list_def)
next
  assume a: "load_schema lib fs schema_file = Some schema
        \<and> (\<forall>obj\<in>set objs. js_validate obj schema \<noteq> Raises)"
  then have ok: "\<forall>obj\<in>set objs. js_validate obj schema \<noteq> Raises" by simp
  from validate_loop_results [where js_validate = js_validate and schema = schema and objs = objs
      and i = 0 and results = "[]" and valid_count = 0, OF ok] a
  show "\<exists>results.
             validate_list lib js_validate fs objs schema_file
               = Inr (results, length (filter valid results))
             \<and> length results = length objs
             \<and> (\<forall>k<length objs.
                   index (results ! k) = k \<and> object (results ! k) = objs ! k
                   \<and> (js_validate (objs ! k) schema = Conforms
                        \<longrightarrow> valid (results ! k) \<and> errors (results ! k) = None)
                   \<and> (\<forall>m. js_validate (objs ! k) schema = Violates m
                        \<longrightarrow> \<not> valid (results ! k) \<and> errors (results ! k) = Some m))"
    by (simp add: validate_list_def)
next
  assume a: "load_schema lib fs schema_file = Some schema
        \<and> objs = before @ obj # after
        \<and> (\<forall>x\<in>set before. js_validate x schema \<noteq> Raises)
        \<and> js_validate obj schema = Raises"
  then have "validate_loop js_validate schema objs 0 [] 0 = Inl OtherError"
    using validate_loop_raises [of objs before obj after js_validate schema 0 "[]" 0] by blast
  with a show "validate_list lib js_validate fs objs schema_file = Inl OtherError"
    by (simp add: validate_list_def)
qed

lemmas schema_eval = validate_list_def load_schema_def read_text_utf8_def decode_utf8_def
  sample_files_def sample_parsers_def json_documents_def ascii_bytes_def lit_def
  doc_nested_def doc_single_def doc_items_def doc_rows_def doc_ten_def doc_xml_def
  doc_schema_def doc_not_a_schema_def sample_js_validate_def

theorem validate_list_results_witness:
  "validate_list sample_parsers sample_js_validate sample_files [JDict []] (lit ''absent.json'')
     = Inl RuntimeError
   \<and> validate_list sample_parsers sample_js_validate sample_files
       [JDict [], JDict [(lit ''tracking_id'', JInt 1)]] (lit ''canonical_schema.json'')
     = Inr ([\<lparr>index = 0, valid = False,
               errors = Some ([39] @ lit ''tracking_id'' @ [39] @ lit '' is a required property''),
               object = JDict []\<rparr>,
             \<lparr>index = 1, valid = True, errors = None,
               object = JDict [(lit ''tracking_id'', JInt 1)]\<rparr>], 1)
   \<and> validate_list sample_parsers sample_js_validate sample_files
       [JDict [(lit ''tracking_id'', JInt 1)], JDict []] (lit ''not_a_schema.json'')
     = Inl OtherError"
proof -
  let ?required = "JDict [(lit ''required'', JList [JStr (lit ''tracking_id'')])] :: unit json"
  let ?bad = "JDict [(lit ''type'', JInt 12)] :: unit json"
  let ?objs = "[JDict [], JDict [(lit ''tracking_id'', JInt 1)]] :: unit json list"
  have l1: "load_schema sample_parsers sample_files (lit ''absent.json'') = None"
    by (simp add: schema_eval)
  have l2: "load_schema sample_parsers sample_files (lit ''canonical_schema.json'') = Some ?required"
    by (simp add: schema_eval)
  have l3: "load_schema sample_parsers sample_files (lit ''not_a_schema.json'') = Some ?bad"
    by (simp add: schema_eval)
  have ok: "\<forall>obj\<in>set ?objs. sample_js_validate obj ?required \<noteq> Raises"
    by (simp add: sample_js_validate_def lit_def)
  have bad: "sample_js_validate (JDict [(lit ''tracking_id'', JInt 1)]) ?bad = Raises"
    by (simp add: sample_js_validate_def lit_def)
  have r1: "validate_list sample_parsers sample_js_validate sample_files [JDict []]
              (lit ''absent.json'') = Inl RuntimeError"
    using validate_list_results [where lib = sample_parsers and fs = sample_files
        and schema_file = "lit ''absent.json''" and js_validate = sample_js_validate
        and objs = "[JDict []]", THEN conjunct1] l1
    by simp
  have r3: "validate_list sample_parsers sample_js_validate sample_files
              [JDict [(lit ''tracking_id'', JInt 1)], JDict []] (lit ''not_a_schema.json'')
            = Inl OtherError"
    using validate_list_results [where lib = sample_parsers and fs = sample_files
        and schema_file = "lit ''not_a_schema.json''" and js_validate = sample_js_validate
        and objs = "[JDict [(lit ''tracking_id'', JInt 1)], JDict []]" and schema = ?bad
        and before = "[]" and obj = "JDict [(lit ''tracking_id'', JInt 1)]"
        and after = "[JDict []]", THEN conjunct2, THEN conjunct2] l3 bad
    by simp
  from validate_list_results [where lib = sample_parsers and fs = sample_files
        and schema_file = "lit ''canonical_schema.json''" and js_validate = sample_js_validate
        and objs = ?objs and schema = ?required, THEN conjunct2, THEN conjunct1] l2 ok
  obtain results where
    "validate_list sample_parsers sample_js_validate sample_files ?objs
       (lit ''canonical_schema.json'') = Inr (results, length (filter valid results))"
    "length results = length ?objs"
    by blast
  moreover have "validate_list sample_parsers sample_js_validate sample_files ?objs
       (lit ''canonical_schema.json'')
     = Inr ([\<lparr>index = 0, valid = False,
               errors = Some ([39] @ lit ''tracking_id'' @ [39] @ lit '' is a required property''),
               object = JDict []\<rparr>,
             \<lparr>index = 1, valid = True, errors = None,
               object = JDict [(lit ''tracking_id'', JInt 1)]\<rparr>], 1)"
    by (simp add: schema_eval)
  ultimately show ?thesis
    using r1 r3 by simp
qed

text \<open>
  C9 as stated fails in the "only if": the document \<open>{"type": 12}\<close> is there and parses,
  yet the call ends with an exception, the one that the validator raises for a schema that
  is not valid.
\<close>

theorem invalid_schema_is_fatal:
  "load_schema sample_parsers sample_files (lit ''not_a_schema.json'')
     = Some (JDict [(lit ''type'', JInt 12)])
   \<and> validate_list sample_parsers sample_js_validate sample_files [JDict []]
        (lit ''not_a_schema.json'') = Inl OtherError"
  by (simp add: schema_eval)

end
